theory Spec2Isabelle
  imports Main "HOL-Library.Word" "HOL-Library.Multiset"
begin

unbundle bit_operations_syntax

section \<open>The staged move picker (movepick.cpp)\<close>

text \<open>
  The embedding follows \<^verbatim>\<open>movepick.cpp\<close> function by function. The headers the file
  includes (\<^verbatim>\<open>movepick.h\<close>, \<^verbatim>\<open>position.h\<close>, \<^verbatim>\<open>move.h\<close>, \<^verbatim>\<open>movegen.h\<close>,
  \<^verbatim>\<open>history.h\<close>) are not among the sources, so everything they declare is a parameter:
  the position's queries are the fields of the record \<open>Position\<close>, the free functions
  and constants are the fields of the record \<open>Ext\<close>.

  Failures are values. An array read or write outside the array is \<open>OutOfBounds\<close>, a
  failing \<^verbatim>\<open>assert\<close> is \<open>AssertionFailed\<close>, a shift by at least the width of the
  operand is \<open>ShiftTooWide\<close>, an exception a library function throws is \<open>Thrown\<close>. A
  loop that may spin forever is a
  \<^theory_text>\<open>partial_function (option)\<close>: not returning is the value \<open>None\<close>.
\<close>

datatype error = OutOfBounds | AssertionFailed | ShiftTooWide | Thrown

type_synonym Move = int
type_synonym Square = int
type_synonym Piece = int
type_synonym Depth = int
type_synonym Bitboard = "64 word"

datatype Color = WHITE | BLACK

fun opposite_color :: "Color \<Rightarrow> Color" where
  "opposite_color WHITE = BLACK"
| "opposite_color BLACK = WHITE"

text \<open>
  Modelled from the spec: the sentinel \<^verbatim>\<open>MOVE_NONE\<close> of \<^verbatim>\<open>move.h\<close>, which is not among the
  sources. The spec only says that \<open>NONE\<close> is a distinguished sentinel; no proof below
  uses its numeric value.
\<close>

definition MOVE_NONE :: Move where
  "MOVE_NONE = 0"

text \<open>
  Modelled from the spec: the constant \<^verbatim>\<open>SQ_NONE\<close> of \<^verbatim>\<open>square.h\<close>, which is not among the
  sources: the value of \<^verbatim>\<open>ep_square()\<close> when there is no en-passant square.
\<close>

definition SQ_NONE :: Square where
  "SQ_NONE = 64"

text \<open>
  The enumeration \<^verbatim>\<open>MovePicker::MovegenPhase\<close>: the enumerators the source file names,
  the two it names only in the commented-out lines of \<^verbatim>\<open>init_phase_table\<close> included.
\<close>

datatype MovegenPhase =
    PH_TT_MOVE
  | PH_MATE_KILLER
  | PH_GOOD_CAPTURES
  | PH_BAD_CAPTURES
  | PH_KILLER_1
  | PH_KILLER_2
  | PH_NONCAPTURES
  | PH_EVASIONS
  | PH_QCAPTURES
  | PH_QCHECKS
  | PH_STOP

record MoveStack =
  move :: Move
  score :: int

record Position =
  side_to_move :: Color
  is_check :: bool
  pieces_of_color :: "Color \<Rightarrow> Bitboard"
  ep_square :: Square
  has_pawn_on_7th :: "Color \<Rightarrow> bool"
  discovered_check_candidates :: "Color \<Rightarrow> Bitboard"
  pinned_pieces :: "Color \<Rightarrow> Bitboard"
  see :: "Move \<Rightarrow> int"
  midgame_value_of_piece_on :: "Square \<Rightarrow> int"
  type_of_piece_on :: "Square \<Rightarrow> int"
  piece_on :: "Square \<Rightarrow> Piece"
  square_is_empty :: "Square \<Rightarrow> bool"
  mg_pst_delta :: "Move \<Rightarrow> int"
  pl_move_is_legal :: "Move \<Rightarrow> Bitboard \<Rightarrow> bool"

record Ext =
  generate_captures :: "Position \<Rightarrow> Move list"
  generate_noncaptures :: "Position \<Rightarrow> Move list"
  generate_evasions :: "Position \<Rightarrow> Move list"
  generate_checks :: "Position \<Rightarrow> Bitboard \<Rightarrow> Move list"
  move_is_legal :: "Position \<Rightarrow> Move \<Rightarrow> Bitboard \<Rightarrow> bool"
  move_is_ok :: "Move \<Rightarrow> bool"
  move_promotion :: "Move \<Rightarrow> bool"
  move_from :: "Move \<Rightarrow> Square"
  move_to :: "Move \<Rightarrow> Square"
  move_ordering_score :: "Piece \<Rightarrow> Move \<Rightarrow> int"
  HistoryMax :: int
  QueenValueMidgame :: int

record SearchStack =
  ss_mateKiller :: Move
  killers :: "nat \<Rightarrow> Move"

record EvalInfo =
  attackedBy :: "Color \<Rightarrow> nat \<Rightarrow> Bitboard"
  specialized_eval_exists :: bool

record MovePicker =
  pos :: Position
  pvNode :: bool
  ttMove :: Move
  mateKiller :: Move
  killer1 :: Move
  killer2 :: Move
  depth :: Depth
  phaseIndex :: int
  movesPicked :: nat
  numOfMoves :: nat
  numOfBadCaptures :: nat
  badCapturesPicked :: nat
  dc :: Bitboard
  pinned :: Bitboard
  moves :: "MoveStack list"
  badCaptures :: "MoveStack list"
  finished :: bool

subsection \<open>The phase table\<close>

text \<open>
  The file-level variables of the anonymous namespace: \<^verbatim>\<open>PhaseTable[32]\<close> and the six
  row indices. \<open>init_phase_table\<close> is the sequence of assignments of the source; the
  local counter \<^verbatim>\<open>i\<close> is threaded with the state, and \<open>put\<close> is the statement
  \<^verbatim>\<open>PhaseTable[i++] = ph\<close>.
\<close>

record PhaseGlobals =
  PhaseTable :: "MovegenPhase list"
  MainSearchPhaseIndex :: int
  EvasionsPhaseIndex :: int
  QsearchWithChecksPhaseIndex :: int
  QsearchNoCapturesPhaseIndex :: int
  QsearchWithoutChecksPhaseIndex :: int
  NoMovesPhaseIndex :: int

definition put :: "MovegenPhase \<Rightarrow> nat \<times> PhaseGlobals \<Rightarrow> nat \<times> PhaseGlobals" where
  "put ph = (\<lambda>(i, g). (i + 1, g\<lparr>PhaseTable := (PhaseTable g)[i := ph]\<rparr>))"

definition init_phase_table :: "PhaseGlobals \<Rightarrow> PhaseGlobals" where
  "init_phase_table g0 =
     (let s = (0 :: nat, g0);
          \<comment> \<open>Main search\<close>
          s = (fst s, (snd s)\<lparr>MainSearchPhaseIndex := int (fst s) - 1\<rparr>);
          s = put PH_TT_MOVE s;
          s = put PH_MATE_KILLER s;
          s = put PH_GOOD_CAPTURES s;
          s = put PH_NONCAPTURES s;
          s = put PH_BAD_CAPTURES s;
          s = put PH_STOP s;
          \<comment> \<open>Check evasions\<close>
          s = (fst s, (snd s)\<lparr>EvasionsPhaseIndex := int (fst s) - 1\<rparr>);
          s = put PH_EVASIONS s;
          s = put PH_STOP s;
          \<comment> \<open>Quiescence search with checks\<close>
          s = (fst s, (snd s)\<lparr>QsearchWithChecksPhaseIndex := int (fst s) - 1\<rparr>);
          s = put PH_QCAPTURES s;
          s = put PH_QCHECKS s;
          s = put PH_STOP s;
          \<comment> \<open>Quiescence search with checks only and no captures\<close>
          s = (fst s, (snd s)\<lparr>QsearchNoCapturesPhaseIndex := int (fst s) - 1\<rparr>);
          s = put PH_QCHECKS s;
          s = put PH_STOP s;
          \<comment> \<open>Quiescence search without checks\<close>
          s = (fst s, (snd s)\<lparr>QsearchWithoutChecksPhaseIndex := int (fst s) - 1\<rparr>);
          s = put PH_QCAPTURES s;
          s = put PH_STOP s;
          \<comment> \<open>Do not generate any move\<close>
          s = (fst s, (snd s)\<lparr>NoMovesPhaseIndex := int (fst s) - 1\<rparr>);
          s = put PH_STOP s
      in snd s)"

text \<open>
  The read \<^verbatim>\<open>PhaseTable[phaseIndex]\<close>: the index is an \<^verbatim>\<open>int\<close>, the array has the cells
  \<open>0 .. length - 1\<close>, and a read anywhere else is \<open>OutOfBounds\<close>.
\<close>

definition phase_at :: "PhaseGlobals \<Rightarrow> int \<Rightarrow> error + MovegenPhase" where
  "phase_at g i =
     (if 0 \<le> i \<and> i < int (length (PhaseTable g)) then Inr (PhaseTable g ! nat i)
      else Inl OutOfBounds)"

subsection \<open>The constructor\<close>

text \<open>
  \<open>MovePicker_ctor\<close> is the constructor. Its first argument after the globals is the
  storage the object is built in: the constructor assigns neither \<^verbatim>\<open>badCapturesPicked\<close>
  nor the two arrays, so they keep what the storage held. The pointer \<^verbatim>\<open>ei\<close> may be
  null: it is an \<open>option\<close>.
\<close>

definition noCaptures_hint :: "Position \<Rightarrow> EvalInfo option \<Rightarrow> bool" where
  "noCaptures_hint p ei =
     (let us = side_to_move p;
          them = opposite_color us
      in (case ei of
            None \<Rightarrow> False
          | Some e \<Rightarrow>
              (attackedBy e us 0 AND pieces_of_color p them) = 0
              \<and> \<not> specialized_eval_exists e
              \<and> ep_square p = SQ_NONE
              \<and> \<not> has_pawn_on_7th p us))"

definition MovePicker_ctor ::
  "PhaseGlobals \<Rightarrow> MovePicker \<Rightarrow> Position \<Rightarrow> bool \<Rightarrow> Move \<Rightarrow> SearchStack \<Rightarrow> Depth
     \<Rightarrow> EvalInfo option \<Rightarrow> MovePicker" where
  "MovePicker_ctor g raw p pv ttm ss d ei =
     (let us = side_to_move p;
          noCaptures = noCaptures_hint p ei
      in raw\<lparr>
           pos := p,
           pvNode := pv,
           ttMove := ttm,
           mateKiller := (if ss_mateKiller ss = ttm then MOVE_NONE else ss_mateKiller ss),
           killer1 := killers ss 0,
           killer2 := killers ss 1,
           depth := d,
           movesPicked := 0,
           numOfMoves := 0,
           numOfBadCaptures := 0,
           phaseIndex :=
             (if is_check p then EvasionsPhaseIndex g
              else if d > 0 then MainSearchPhaseIndex g
              else if d = 0 then
                (if noCaptures then QsearchNoCapturesPhaseIndex g
                 else QsearchWithChecksPhaseIndex g)
              else
                (if noCaptures then NoMovesPhaseIndex g
                 else QsearchWithoutChecksPhaseIndex g)),
           dc := discovered_check_candidates p us,
           pinned := pinned_pieces p (side_to_move p),
           finished := False\<rparr>)"

subsection \<open>Scoring\<close>

text \<open>
  The arrays \<^verbatim>\<open>moves[]\<close> and \<^verbatim>\<open>badCaptures[]\<close> are lists as long as the arrays; the
  counters say how many cells are in use. A generator writes its moves into the first
  cells of \<^verbatim>\<open>moves[]\<close> and returns their number: \<open>store_moves\<close> overwrites those cells
  and leaves the cells behind them as they were. Moves that do not fit into the array
  are not in the list: the counter then exceeds the length, and the loops below answer
  \<open>OutOfBounds\<close> when they reach for them.
\<close>

definition store_moves :: "Move list \<Rightarrow> MoveStack list \<Rightarrow> MoveStack list" where
  "store_moves ms old =
     map (\<lambda>(m, c). c\<lparr>move := m\<rparr>) (zip ms old) @ drop (length ms) old"

text \<open>
  A \<^verbatim>\<open>for (i = 0; i < numOfMoves; i++) moves[i].score = f(moves[i].move)\<close> loop, for the
  three scoring functions whose loop does not change \<^verbatim>\<open>numOfMoves\<close>.
\<close>

definition score_each :: "(Move \<Rightarrow> int) \<Rightarrow> MovePicker \<Rightarrow> MovePicker" where
  "score_each f mp =
     mp\<lparr>moves :=
          fold (\<lambda>i ms. ms[i := (ms ! i)\<lparr>score := f (move (ms ! i))\<rparr>])
            [0..<numOfMoves mp] (moves mp)\<rparr>"

definition mvv_lva :: "Ext \<Rightarrow> Position \<Rightarrow> Move \<Rightarrow> int" where
  "mvv_lva x p m =
     (if move_promotion x m then QueenValueMidgame x
      else midgame_value_of_piece_on p (move_to x m) - type_of_piece_on p (move_from x m))"

text \<open>
  \<open>score_captures\<close>: the loop of the source with its counter \<^verbatim>\<open>i\<close> as an argument. In
  the losing-capture branch the source decrements \<^verbatim>\<open>i\<close> and the loop header increments
  it again, so the next iteration looks at the same cell: the recursive call keeps \<open>i\<close>.
\<close>

function score_captures_loop :: "Ext \<Rightarrow> nat \<Rightarrow> MovePicker \<Rightarrow> error + MovePicker" where
  "score_captures_loop x i mp =
     (if i < numOfMoves mp then
        (if length (moves mp) < numOfMoves mp then Inl OutOfBounds
         else
           (let m = move (moves mp ! i);
                seeValue = see (pos mp) m
            in if seeValue \<ge> 0 then
                 score_captures_loop x (i + 1)
                   (mp\<lparr>moves := (moves mp)[i := (moves mp ! i)\<lparr>score := mvv_lva x (pos mp) m\<rparr>]\<rparr>)
               else if \<not> numOfBadCaptures mp < 63 then Inl AssertionFailed
               else if \<not> numOfBadCaptures mp < length (badCaptures mp) then Inl OutOfBounds
               else
                 (let ms1 = (moves mp)[i := (moves mp ! i)\<lparr>score := seeValue\<rparr>];
                      bc = (badCaptures mp)[numOfBadCaptures mp := ms1 ! i];
                      n = numOfMoves mp - 1
                  in score_captures_loop x i
                       (mp\<lparr>moves := ms1[i := ms1 ! n],
                           badCaptures := bc,
                           numOfBadCaptures := numOfBadCaptures mp + 1,
                           numOfMoves := n\<rparr>))))
      else Inr mp)"
  by pat_completeness auto
termination
  by (relation "measure (\<lambda>(x, i, mp). numOfMoves mp - i)") auto

declare score_captures_loop.simps [simp del]

definition score_captures :: "Ext \<Rightarrow> MovePicker \<Rightarrow> error + MovePicker" where
  "score_captures x mp = score_captures_loop x 0 mp"

definition score_noncaptures :: "Ext \<Rightarrow> MovePicker \<Rightarrow> MovePicker" where
  "score_noncaptures x mp =
     score_each
       (\<lambda>m. let hs = (if m = killer1 mp then HistoryMax x + 2
                      else if m = killer2 mp then HistoryMax x + 1
                      else move_ordering_score x (piece_on (pos mp) (move_from x m)) m);
                 hs = (if hs > 0 then hs + 1000 else hs)
             in hs + mg_pst_delta (pos mp) m)
       mp"

definition score_evasions :: "Ext \<Rightarrow> MovePicker \<Rightarrow> MovePicker" where
  "score_evasions x mp =
     score_each
       (\<lambda>m. if m = ttMove mp then 2 * HistoryMax x
             else if \<not> square_is_empty (pos mp) (move_to x m) then
               (let seeScore = see (pos mp) m
                in if seeScore \<ge> 0 then seeScore + HistoryMax x else seeScore)
             else move_ordering_score x (piece_on (pos mp) (move_from x m)) m)
       mp"

definition score_qcaptures :: "Ext \<Rightarrow> MovePicker \<Rightarrow> MovePicker" where
  "score_qcaptures x mp = score_each (mvv_lva x (pos mp)) mp"

subsection \<open>Picking from the list\<close>

text \<open>
  \<open>find_best_index()\<close>: the loop over \<open>movesPicked \<le> i < numOfMoves\<close> with the pair
  \<^verbatim>\<open>(bestScore, bestIndex)\<close> as its state. (The second overload, with the square
  penalties, has no caller in the file.)
\<close>

definition find_best_index :: "MovePicker \<Rightarrow> int" where
  "find_best_index mp =
     snd (fold
            (\<lambda>i (bestScore, bestIndex).
               if score (moves mp ! i) > bestScore then (score (moves mp ! i), int i)
               else (bestScore, bestIndex))
            [movesPicked mp..<numOfMoves mp]
            (-10000000, -1))"

text \<open>
  The four score-driven cases of \<^verbatim>\<open>pick_move_from_list\<close> are the same loop up to the rule
  that chooses \<^verbatim>\<open>bestIndex\<close> and the test that lets the move out; \<open>pick_loop\<close> is that
  loop. When \<^verbatim>\<open>bestIndex\<close> is \<open>-1\<close> the body changes nothing and the loop goes round
  again, so the function is partial. Every cell an iteration touches lies below
  \<^verbatim>\<open>numOfMoves\<close>: one test covers them.
\<close>

partial_function (option) pick_loop ::
  "(MovePicker \<Rightarrow> int) \<Rightarrow> (Move \<Rightarrow> bool) \<Rightarrow> MovePicker \<Rightarrow> (error + Move \<times> MovePicker) option"
where
  "pick_loop sel accept mp =
     (if movesPicked mp < numOfMoves mp then
        (if length (moves mp) < numOfMoves mp then Some (Inl OutOfBounds)
         else
           (let bestIndex = sel mp
            in if bestIndex \<noteq> -1 then
                 (if bestIndex < 0 \<or> int (length (moves mp)) \<le> bestIndex
                  then Some (Inl OutOfBounds)
                  else
                    (let m = move (moves mp ! nat bestIndex);
                         mp' = mp\<lparr>moves := (moves mp)[nat bestIndex := moves mp ! movesPicked mp],
                                  movesPicked := movesPicked mp + 1\<rparr>
                     in if accept m then Some (Inr (m, mp')) else pick_loop sel accept mp'))
               else pick_loop sel accept mp))
      else Some (Inr (MOVE_NONE, mp)))"

text \<open>The two loops that take the cells in order: they advance at every iteration.\<close>

function pick_bad_captures :: "(Move \<Rightarrow> bool) \<Rightarrow> MovePicker \<Rightarrow> error + Move \<times> MovePicker" where
  "pick_bad_captures accept mp =
     (if badCapturesPicked mp < numOfBadCaptures mp then
        (if length (badCaptures mp) \<le> badCapturesPicked mp then Inl OutOfBounds
         else
           (let m = move (badCaptures mp ! badCapturesPicked mp);
                mp' = mp\<lparr>badCapturesPicked := badCapturesPicked mp + 1\<rparr>
            in if accept m then Inr (m, mp') else pick_bad_captures accept mp'))
      else Inr (MOVE_NONE, mp))"
  by pat_completeness auto
termination
  by (relation "measure (\<lambda>(accept, mp). numOfBadCaptures mp - badCapturesPicked mp)") auto

declare pick_bad_captures.simps [simp del]

function pick_in_order :: "(Move \<Rightarrow> bool) \<Rightarrow> MovePicker \<Rightarrow> error + Move \<times> MovePicker" where
  "pick_in_order accept mp =
     (if movesPicked mp < numOfMoves mp then
        (if length (moves mp) \<le> movesPicked mp then Inl OutOfBounds
         else
           (let m = move (moves mp ! movesPicked mp);
                mp' = mp\<lparr>movesPicked := movesPicked mp + 1\<rparr>
            in if accept m then Inr (m, mp') else pick_in_order accept mp'))
      else Inr (MOVE_NONE, mp))"
  by pat_completeness auto
termination
  by (relation "measure (\<lambda>(accept, mp). numOfMoves mp - movesPicked mp)") auto

declare pick_in_order.simps [simp del]

text \<open>
  The body of the \<^verbatim>\<open>switch\<close> of \<^verbatim>\<open>pick_move_from_list\<close>, by phase, with the assertions
  on \<^verbatim>\<open>pos.is_check()\<close>. (The counters are unsigned here, so the assertions
  \<^verbatim>\<open>movesPicked >= 0\<close> hold.)
\<close>

fun pick_phase :: "MovegenPhase \<Rightarrow> MovePicker \<Rightarrow> (error + Move \<times> MovePicker) option" where
  "pick_phase PH_GOOD_CAPTURES mp =
     (if is_check (pos mp) then Some (Inl AssertionFailed)
      else pick_loop find_best_index
             (\<lambda>m. m \<noteq> ttMove mp \<and> m \<noteq> mateKiller mp \<and> pl_move_is_legal (pos mp) m (pinned mp)) mp)"
| "pick_phase PH_NONCAPTURES mp =
     (if is_check (pos mp) then Some (Inl AssertionFailed)
      else pick_loop
             (\<lambda>s. if pvNode s \<or> movesPicked s < 12 then find_best_index s
                   else int (movesPicked s))
             (\<lambda>m. m \<noteq> ttMove mp \<and> m \<noteq> mateKiller mp \<and> pl_move_is_legal (pos mp) m (pinned mp)) mp)"
| "pick_phase PH_EVASIONS mp =
     (if \<not> is_check (pos mp) then Some (Inl AssertionFailed)
      else pick_loop find_best_index (\<lambda>m. True) mp)"
| "pick_phase PH_BAD_CAPTURES mp =
     (if is_check (pos mp) then Some (Inl AssertionFailed)
      else Some (pick_bad_captures
             (\<lambda>m. m \<noteq> ttMove mp \<and> m \<noteq> mateKiller mp \<and> pl_move_is_legal (pos mp) m (pinned mp)) mp))"
| "pick_phase PH_QCAPTURES mp =
     (if is_check (pos mp) then Some (Inl AssertionFailed)
      else pick_loop
             (\<lambda>s. if movesPicked s < 4 then find_best_index s else int (movesPicked s))
             (\<lambda>m. pl_move_is_legal (pos mp) m (pinned mp)) mp)"
| "pick_phase PH_QCHECKS mp =
     (if is_check (pos mp) then Some (Inl AssertionFailed)
      else Some (pick_in_order (\<lambda>m. pl_move_is_legal (pos mp) m (pinned mp)) mp))"
| "pick_phase _ mp = Some (Inr (MOVE_NONE, mp))"

definition pick_move_from_list ::
  "PhaseGlobals \<Rightarrow> MovePicker \<Rightarrow> (error + Move \<times> MovePicker) option" where
  "pick_move_from_list g mp =
     (case phase_at g (phaseIndex mp) of
        Inl e \<Rightarrow> Some (Inl e)
      | Inr ph \<Rightarrow> pick_phase ph mp)"

subsection \<open>The phases\<close>

text \<open>
  The \<^verbatim>\<open>switch\<close> of \<open>get_next_move\<close> after \<^verbatim>\<open>phaseIndex++\<close>: a case either returns from
  the function (\<open>Return\<close>) or leaves the \<^verbatim>\<open>switch\<close> for the next round of the
  \<^verbatim>\<open>while (true)\<close> loop (\<open>Break\<close>).
\<close>

datatype switch_exit = Return "error + Move \<times> MovePicker" | Break MovePicker

definition generate :: "Move list \<Rightarrow> MovePicker \<Rightarrow> MovePicker" where
  "generate ms mp = mp\<lparr>numOfMoves := length ms, moves := store_moves ms (moves mp)\<rparr>"

fun next_phase :: "Ext \<Rightarrow> MovegenPhase \<Rightarrow> MovePicker \<Rightarrow> switch_exit" where
  "next_phase x PH_TT_MOVE mp =
     (if ttMove mp \<noteq> MOVE_NONE then
        (if \<not> move_is_ok x (ttMove mp) then Return (Inl AssertionFailed)
         else if move_is_legal x (pos mp) (ttMove mp) (pinned mp) then Return (Inr (ttMove mp, mp))
         else Break mp)
      else Break mp)"
| "next_phase x PH_MATE_KILLER mp =
     (if mateKiller mp \<noteq> MOVE_NONE then
        (if \<not> move_is_ok x (mateKiller mp) then Return (Inl AssertionFailed)
         else if move_is_legal x (pos mp) (mateKiller mp) (pinned mp)
           then Return (Inr (mateKiller mp, mp))
         else Break mp)
      else Break mp)"
| "next_phase x PH_GOOD_CAPTURES mp =
     (case score_captures x (generate (generate_captures x (pos mp)) mp) of
        Inl e \<Rightarrow> Return (Inl e)
      | Inr mp' \<Rightarrow> Break (mp'\<lparr>movesPicked := 0\<rparr>))"
| "next_phase x PH_BAD_CAPTURES mp = Break (mp\<lparr>badCapturesPicked := 0\<rparr>)"
| "next_phase x PH_NONCAPTURES mp =
     Break ((score_noncaptures x (generate (generate_noncaptures x (pos mp)) mp))\<lparr>movesPicked := 0\<rparr>)"
| "next_phase x PH_EVASIONS mp =
     (if \<not> is_check (pos mp) then Return (Inl AssertionFailed)
      else Break ((score_evasions x (generate (generate_evasions x (pos mp)) mp))\<lparr>movesPicked := 0\<rparr>))"
| "next_phase x PH_QCAPTURES mp =
     Break ((score_qcaptures x (generate (generate_captures x (pos mp)) mp))\<lparr>movesPicked := 0\<rparr>)"
| "next_phase x PH_QCHECKS mp =
     Break ((generate (generate_checks x (pos mp) (dc mp)) mp)\<lparr>movesPicked := 0\<rparr>)"
| "next_phase x PH_STOP mp = Return (Inr (MOVE_NONE, mp))"
| "next_phase x _ mp = Return (Inl AssertionFailed)"

partial_function (option) get_next_move ::
  "Ext \<Rightarrow> PhaseGlobals \<Rightarrow> MovePicker \<Rightarrow> (error + Move \<times> MovePicker) option"
where
  "get_next_move ext g mp =
     Option.bind (pick_move_from_list g mp)
       (\<lambda>r. case r of
               Inl e \<Rightarrow> Some (Inl e)
             | Inr (m, mp1) \<Rightarrow>
                 if m \<noteq> MOVE_NONE then
                   (if move_is_ok ext m then Some (Inr (m, mp1)) else Some (Inl AssertionFailed))
                 else
                   (let mp2 = mp1\<lparr>phaseIndex := phaseIndex mp1 + 1\<rparr>
                    in case phase_at g (phaseIndex mp2) of
                         Inl e \<Rightarrow> Some (Inl e)
                       | Inr ph \<Rightarrow>
                           (case next_phase ext ph mp2 of
                              Return res \<Rightarrow> Some res
                            | Break mp3 \<Rightarrow> get_next_move ext g mp3)))"

text \<open>
  The variant that takes the lock. \<^verbatim>\<open>lock_grab\<close> and \<^verbatim>\<open>lock_release\<close> bracket the body
  on both paths and touch nothing of the picker, so the body is what is modelled.
\<close>

definition get_next_move_locked ::
  "Ext \<Rightarrow> PhaseGlobals \<Rightarrow> MovePicker \<Rightarrow> (error + Move \<times> MovePicker) option" where
  "get_next_move_locked x g mp =
     (if finished mp then Some (Inr (MOVE_NONE, mp))
      else
        Option.bind (get_next_move x g mp)
          (\<lambda>r. case r of
                  Inl e \<Rightarrow> Some (Inl e)
                | Inr (m, mp1) \<Rightarrow>
                    Some (Inr (m, if m = MOVE_NONE then mp1\<lparr>finished := True\<rparr> else mp1))))"

section \<open>The thread pool and the split points (thread.cpp)\<close>

text \<open>
  The second file (its name is not recorded; it defines \<^verbatim>\<open>ThreadPool Threads\<close>) is
  \<^verbatim>\<open>thread.cpp\<close> of a later version of the engine. Its header \<^verbatim>\<open>thread.h\<close> is not among
  the sources: the records below have the fields the code assigns and reads.

  Pointers are indices. A \<^verbatim>\<open>Thread*\<close> is the position of the thread in the pool's vector;
  a \<^verbatim>\<open>SplitPoint*\<close> is the pair of the owning thread and the cell of its
  \<^verbatim>\<open>splitPoints[]\<close> array; a \<^verbatim>\<open>Position*\<close>, \<^verbatim>\<open>Stack*\<close> or \<^verbatim>\<open>MovePicker*\<close> is an address. A
  pointer that may be null is an \<open>option\<close>. The mutexes are not part of the state: the
  functions are modelled as they run with their locks held.
\<close>

type_synonym Value = int
type_synonym spref = "nat \<times> nat"
type_synonym address = nat

record SplitPoint =
  masterThread :: nat
  parentSplitPoint :: "spref option"
  slavesMask :: "64 word"
  sp_depth :: Depth
  bestValue :: Value
  bestMove :: Move
  threatMove :: Move
  alpha :: Value
  beta :: Value
  nodeType :: int
  cutNode :: bool
  movePicker :: address
  moveCount :: int
  sp_pos :: address
  nodes :: "64 word"
  cutoff :: bool
  sp_ss :: address

record Thread =
  searching :: bool
  maxPly :: int
  splitPointsSize :: int
  splitPoints :: "SplitPoint list"
  activeSplitPoint :: "spref option"
  activePosition :: "address option"
  idx :: nat

record ThreadPool =
  threads :: "Thread list"
  maxThreadsPerSplitPoint :: nat
  minimumSplitDepth :: Depth

text \<open>
  The state \<^verbatim>\<open>split\<close> works on: the pool, and of the positions what \<^verbatim>\<open>split\<close> uses
  (\<^verbatim>\<open>nodes_searched()\<close>, \<^verbatim>\<open>set_nodes_searched()\<close>, \<^verbatim>\<open>pos_is_ok()\<close>), by address.
\<close>

record World =
  pool :: ThreadPool
  nodes_searched :: "address \<Rightarrow> 64 word"
  pos_is_ok :: "address \<Rightarrow> bool"

subsection \<open>Availability\<close>

definition is_available_to :: "Thread \<Rightarrow> Thread \<Rightarrow> error + bool" where
  "is_available_to th master =
     (if searching th then Inr False
      else
        (let size = splitPointsSize th
         in if size = 0 then Inr True
            else if size - 1 < 0 \<or> int (length (splitPoints th)) \<le> size - 1
              then Inl OutOfBounds
            else if 64 \<le> idx master then Inl ShiftTooWide
            else Inr ((slavesMask (splitPoints th ! nat (size - 1))
                        AND push_bit (idx master) 1) \<noteq> 0)))"

text \<open>
  \<open>available_slave\<close>: the range-based \<^verbatim>\<open>for\<close> over the pool, the position of the
  thread under the iterator carried along (it is the pointer that is returned).
\<close>

fun available_slave_from :: "Thread list \<Rightarrow> nat \<Rightarrow> Thread \<Rightarrow> error + nat option" where
  "available_slave_from [] i master = Inr None"
| "available_slave_from (th # ths) i master =
     (case is_available_to th master of
        Inl e \<Rightarrow> Inl e
      | Inr True \<Rightarrow> Inr (Some i)
      | Inr False \<Rightarrow> available_slave_from ths (i + 1) master)"

definition available_slave :: "ThreadPool \<Rightarrow> Thread \<Rightarrow> error + nat option" where
  "available_slave P master = available_slave_from (threads P) 0 master"

subsection \<open>Reading the options\<close>







text \<open>
  The options (\<^verbatim>\<open>ucioption.cpp\<close>). An \<^verbatim>\<open>Option\<close> holds its values as strings; \<^verbatim>\<open>min\<close> and
  \<^verbatim>\<open>max\<close> are \<^verbatim>\<open>int\<close>s, 32 bits wide. The fields \<^verbatim>\<open>type\<close>, \<^verbatim>\<open>min\<close>, \<^verbatim>\<open>max\<close> and \<^verbatim>\<open>idx\<close> are
  \<open>o_type\<close>, \<open>o_min\<close>, \<open>o_max\<close> and \<open>o_idx\<close> here. The function pointer \<^verbatim>\<open>on_change\<close> is
  the name of the function it points to, or \<open>None\<close> when it is null. \<^verbatim>\<open>std::stoi\<close> is a
  parameter: \<open>stoi v\<close> is the \<^verbatim>\<open>int\<close> it returns, or \<open>None\<close> when it throws. The map
  \<^verbatim>\<open>Options\<close> is a function from the names to the options.
\<close>

datatype Fn = on_logger | on_eval | on_threads | on_hash_size | on_clear_hash






subsection \<open>Splitting\<close>

text \<open>Writes through a \<^verbatim>\<open>Thread*\<close> and through a \<^verbatim>\<open>SplitPoint*\<close>.\<close>

definition upd_thread :: "nat \<Rightarrow> (Thread \<Rightarrow> Thread) \<Rightarrow> ThreadPool \<Rightarrow> ThreadPool" where
  "upd_thread t f P = P\<lparr>threads := (threads P)[t := f (threads P ! t)]\<rparr>"

definition upd_sp :: "spref \<Rightarrow> (SplitPoint \<Rightarrow> SplitPoint) \<Rightarrow> ThreadPool \<Rightarrow> ThreadPool" where
  "upd_sp r f P =
     upd_thread (fst r)
       (\<lambda>th. th\<lparr>splitPoints := (splitPoints th)[snd r := f (splitPoints th ! snd r)]\<rparr>) P"

lemma upd_sp_searching:
  "map searching (threads (upd_sp r f P)) = map searching (threads P)"
proof (rule nth_equalityI)
  show "length (map searching (threads (upd_sp r f P))) = length (map searching (threads P))"
    by (simp add: upd_sp_def upd_thread_def)
next
  fix i
  assume "i < length (map searching (threads (upd_sp r f P)))"
  then have "i < length (threads P)"
    by (simp add: upd_sp_def upd_thread_def)
  then show "map searching (threads (upd_sp r f P)) ! i = map searching (threads P) ! i"
    by (cases "i = fst r") (simp_all add: upd_sp_def upd_thread_def)
qed

lemma available_slave_from_idle:
  "available_slave_from ths i master = Inr (Some s)
   \<Longrightarrow> i \<le> s \<and> s - i < length ths \<and> \<not> searching (ths ! (s - i))"
proof (induction ths arbitrary: i)
  case Nil
  then show ?case by simp
next
  case (Cons th ths)
  show ?case
  proof (cases "is_available_to th master")
    case (Inl e)
    with Cons.prems show ?thesis by simp
  next
    case (Inr b)
    show ?thesis
    proof (cases b)
      case True
      with Inr Cons.prems have "s = i" by simp
      moreover from True Inr have "\<not> searching th"
        by (auto simp: is_available_to_def split: if_splits)
      ultimately show ?thesis by simp
    next
      case False
      with Inr Cons.prems have "available_slave_from ths (i + 1) master = Inr (Some s)"
        by simp
      from Cons.IH [OF this]
      have le: "Suc i \<le> s" and lt: "s - Suc i < length ths"
        and idle: "\<not> searching (ths ! (s - Suc i))"
        by simp_all
      from le have "s - i = Suc (s - Suc i)" by simp
      with le lt idle show ?thesis by simp
    qed
  qed
qed

text \<open>
  The loop of \<^verbatim>\<open>split\<close> that books the slaves. Its condition increments \<^verbatim>\<open>slavesCnt\<close>
  whenever a slave was found, also when the thread limit or \<^verbatim>\<open>Fake\<close> then ends the loop.
  \<open>t\<close> is \<^verbatim>\<open>this\<close>, \<open>sp\<close> the address of the split point.
\<close>

function book_slaves ::
  "bool \<Rightarrow> nat \<Rightarrow> spref \<Rightarrow> nat \<Rightarrow> ThreadPool \<Rightarrow> error + nat \<times> ThreadPool" where
  "book_slaves Fake t sp slavesCnt P =
     (case available_slave P (threads P ! t) of
        Inl e \<Rightarrow> Inl e
      | Inr None \<Rightarrow> Inr (slavesCnt, P)
      | Inr (Some s) \<Rightarrow>
          (if slavesCnt + 1 \<le> maxThreadsPerSplitPoint P \<and> \<not> Fake then
             (if 64 \<le> idx (threads P ! s) then Inl ShiftTooWide
              else
                (let P1 = upd_sp sp
                            (\<lambda>q. q\<lparr>slavesMask :=
                                      slavesMask q OR push_bit (idx (threads P ! s)) 1\<rparr>) P;
                     P2 = upd_thread s
                            (\<lambda>th. th\<lparr>activeSplitPoint := Some sp, searching := True\<rparr>) P1
                 in book_slaves Fake t sp (slavesCnt + 1) P2))
           else Inr (slavesCnt + 1, P)))"
  by pat_completeness auto
termination
proof (relation "measure (\<lambda>(Fake, t, sp, slavesCnt, P).
                   length (filter (\<lambda>th. \<not> searching th) (threads P)))", goal_cases)
  case 1
  show ?case by simp
next
  case (2 Fake t sp slavesCnt P b s P1 P2)
  have cnt: "length (filter (\<lambda>th. \<not> searching th) ths) = length (filter Not (map searching ths))"
    for ths :: "Thread list"
    by (simp add: filter_map comp_def)
  have less: "length (filter Not (bs[s := True])) < length (filter Not bs)"
    if "s < length bs" "\<not> bs ! s" for bs
  proof -
    from that(1) have bs: "bs = take s bs @ (bs ! s) # drop (Suc s) bs"
      by (simp add: id_take_nth_drop)
    from that(1) have "bs[s := True] = take s bs @ True # drop (Suc s) bs"
      by (simp add: upd_conv_take_nth_drop)
    then have "length (filter Not (bs[s := True]))
               = length (filter Not (take s bs)) + length (filter Not (drop (Suc s) bs))"
      by simp
    moreover have "length (filter Not bs)
               = length (filter Not (take s bs)) + 1 + length (filter Not (drop (Suc s) bs))"
      using that(2) by (subst bs) simp
    ultimately show ?thesis by simp
  qed
  from 2 have "available_slave_from (threads P) 0 (threads P ! t) = Inr (Some s)"
    by (simp add: available_slave_def)
  from available_slave_from_idle [OF this]
  have s: "s < length (threads P)" and idle: "\<not> searching (threads P ! s)"
    by simp_all
  have m1: "map searching (threads P1) = map searching (threads P)"
    unfolding \<open>P1 = _\<close> by (rule upd_sp_searching)
  have m2: "map searching (threads P2) = (map searching (threads P1))[s := True]"
    unfolding \<open>P2 = _\<close>
    by (simp add: upd_thread_def map_update)
  from s idle have lt: "length (filter Not ((map searching (threads P))[s := True]))
                        < length (filter Not (map searching (threads P)))"
    by (intro less) simp_all
  have "length (filter (\<lambda>th. \<not> searching th) (threads P2))
        = length (filter Not (map searching (threads P2)))"
    by (rule cnt)
  also have "\<dots> = length (filter Not ((map searching (threads P))[s := True]))"
    by (simp only: m2 m1)
  also note lt
  also have "length (filter Not (map searching (threads P)))
             = length (filter (\<lambda>th. \<not> searching th) (threads P))"
    by (rule cnt [symmetric])
  finally show ?case
    by simp
qed

declare book_slaves.simps [simp del]

text \<open>
  \<open>split_finish\<close>: the statements of \<^verbatim>\<open>split\<close> after the \<^verbatim>\<open>if\<close>, from
  \<^verbatim>\<open>searching = true\<close> to the two out-parameters. \<open>slot\<close> is the cell of the split point
  \<^verbatim>\<open>sp\<close>, chosen at the start of \<^verbatim>\<open>split\<close>.
\<close>

definition split_finish :: "nat \<Rightarrow> nat \<Rightarrow> address \<Rightarrow> World \<Rightarrow> error + World \<times> Value \<times> Move" where
  "split_finish t slot p W =
     (if length (threads (pool W)) \<le> t then Inl OutOfBounds
      else if length (splitPoints (threads (pool W) ! t)) \<le> slot then Inl OutOfBounds
      else
        (let sp = splitPoints (threads (pool W) ! t) ! slot;
             P = upd_thread t
                   (\<lambda>th. th\<lparr>searching := True,
                             splitPointsSize := splitPointsSize th - 1,
                             activeSplitPoint := parentSplitPoint sp,
                             activePosition := Some p\<rparr>) (pool W);
             W = W\<lparr>pool := P,
                    nodes_searched := (nodes_searched W)(p := nodes_searched W p + nodes sp)\<rparr>
         in Inr (W, bestValue sp, bestMove sp)))"

text \<open>
  \<open>split_begin\<close>: the statements of \<^verbatim>\<open>split\<close> from the choice of the split point to
  \<^verbatim>\<open>activePosition = nullptr\<close>. Every field of the split point but its mutex is
  assigned, so the cell gets a new record. \<open>t\<close> is \<^verbatim>\<open>this\<close>.
\<close>

definition split_begin ::
  "nat \<Rightarrow> ThreadPool \<Rightarrow> address \<Rightarrow> address \<Rightarrow> Value \<Rightarrow> Value \<Rightarrow> Value \<Rightarrow> Move \<Rightarrow> Depth \<Rightarrow> Move
     \<Rightarrow> int \<Rightarrow> address \<Rightarrow> int \<Rightarrow> bool \<Rightarrow> ThreadPool" where
  "split_begin t P p stack a b bestValue0 bestMove0 d threat mc picker nt cn =
     (let this = threads P ! t;
          sp = (t, nat (splitPointsSize this));
          P = upd_sp sp
                (\<lambda>q. \<lparr>masterThread = t,
                       parentSplitPoint = activeSplitPoint this,
                       slavesMask = push_bit (idx this) 1,
                       sp_depth = d,
                       bestValue = bestValue0,
                       bestMove = bestMove0,
                       threatMove = threat,
                       alpha = a,
                       beta = b,
                       nodeType = nt,
                       cutNode = cn,
                       movePicker = picker,
                       moveCount = mc,
                       sp_pos = p,
                       nodes = 0,
                       cutoff = False,
                       sp_ss = stack\<rparr>) P
      in upd_thread t
           (\<lambda>th. th\<lparr>splitPointsSize := splitPointsSize th + 1,
                     activeSplitPoint := Some sp,
                     activePosition := None\<rparr>) P)"

text \<open>
  \<open>split\<close>. \<^verbatim>\<open>Thread::idle_loop()\<close> is defined in another file that is not among the
  sources: it is the parameter \<open>idle_loop\<close>, a change of the whole state (it stands for
  everything the master and its slaves do until the master comes back).
  \<^verbatim>\<open>VALUE_INFINITE\<close> is a parameter too, and \<^verbatim>\<open>MAX_SPLITPOINTS_PER_THREAD\<close> is the length of
  the array \<^verbatim>\<open>splitPoints[]\<close>. The two out-parameters are returned with the state.
\<close>

definition split ::
  "Value \<Rightarrow> bool \<Rightarrow> (nat \<Rightarrow> World \<Rightarrow> World) \<Rightarrow> nat \<Rightarrow> World \<Rightarrow> address \<Rightarrow> address
     \<Rightarrow> Value \<Rightarrow> Value \<Rightarrow> Value \<Rightarrow> Move \<Rightarrow> Depth \<Rightarrow> Move \<Rightarrow> int \<Rightarrow> address \<Rightarrow> int \<Rightarrow> bool
     \<Rightarrow> error + World \<times> Value \<times> Move" where
  "split VALUE_INFINITE Fake idle_loop t W p stack a b bestValue0 bestMove0 d threat mc picker nt cn =
     (if length (threads (pool W)) \<le> t then Inl OutOfBounds
      else
        (let this = threads (pool W) ! t
         in if \<not> pos_is_ok W p then Inl AssertionFailed
            else if \<not> (bestValue0 \<le> a \<and> a < b \<and> b \<le> VALUE_INFINITE) then Inl AssertionFailed
            else if \<not> bestValue0 > - VALUE_INFINITE then Inl AssertionFailed
            else if \<not> d \<ge> minimumSplitDepth (pool W) then Inl AssertionFailed
            else if \<not> searching this then Inl AssertionFailed
            else if \<not> splitPointsSize this < int (length (splitPoints this))
              then Inl AssertionFailed
            else if splitPointsSize this < 0 then Inl OutOfBounds
            else if 64 \<le> idx this then Inl ShiftTooWide
            else
              (let slot = nat (splitPointsSize this);
                   P = split_begin t (pool W) p stack a b bestValue0 bestMove0 d threat mc
                         picker nt cn
               in case book_slaves Fake t (t, slot) 1 P of
                    Inl e \<Rightarrow> Inl e
                  | Inr (slavesCnt, P) \<Rightarrow>
                      (if slavesCnt > 1 \<or> Fake then
                         (let W = idle_loop t (W\<lparr>pool := P\<rparr>)
                          in if length (threads (pool W)) \<le> t then Inl OutOfBounds
                             else if searching (threads (pool W) ! t) then Inl AssertionFailed
                             else if activePosition (threads (pool W) ! t) \<noteq> None
                               then Inl AssertionFailed
                             else split_finish t slot p W)
                       else split_finish t slot p (W\<lparr>pool := P\<rparr>)))))"

section \<open>Notions the statements use\<close>

text \<open>
  \<open>row_is g i phs\<close>: the cells of the phase table from index \<open>i\<close> on hold the phases
  \<open>phs\<close>, each read in bounds.
\<close>

fun row_is :: "PhaseGlobals \<Rightarrow> int \<Rightarrow> MovegenPhase list \<Rightarrow> bool" where
  "row_is g i [] = True"
| "row_is g i (ph # phs) = (phase_at g i = Inr ph \<and> row_is g (i + 1) phs)"

text \<open>
  \<open>locked_call_after x g n mp\<close>: the answer of the locked call that comes after \<open>n\<close>
  other locked calls on the picker \<open>mp\<close>.
\<close>

fun locked_call_after ::
  "Ext \<Rightarrow> PhaseGlobals \<Rightarrow> nat \<Rightarrow> MovePicker \<Rightarrow> (error + Move \<times> MovePicker) option" where
  "locked_call_after x g 0 mp = get_next_move_locked x g mp"
| "locked_call_after x g (Suc n) mp =
     Option.bind (get_next_move_locked x g mp)
       (\<lambda>r. case r of
               Inl e \<Rightarrow> Some (Inl e)
             | Inr (m, mp') \<Rightarrow> locked_call_after x g n mp')"

text \<open>
  \<open>remaining mp\<close>: the cells of \<^verbatim>\<open>moves[]\<close> from \<^verbatim>\<open>movesPicked\<close> up to \<^verbatim>\<open>numOfMoves\<close>,
  the part of the bucket that has not been drawn yet.
\<close>

definition remaining :: "MovePicker \<Rightarrow> MoveStack list" where
  "remaining mp = take (numOfMoves mp - movesPicked mp) (drop (movesPicked mp) (moves mp))"

text \<open>
  \<open>picker_ok mp\<close>: the bucket lies within the array, and every score still in it is
  above the start value \<open>-10000000\<close> of \<^verbatim>\<open>find_best_index\<close>. \<open>sel_ok sel\<close>: on such a
  picker the rule \<open>sel\<close> gives an index of the part not drawn yet; \<open>sel_best sel\<close>: the
  cell it gives has a highest score of that part.
\<close>

definition picker_ok :: "MovePicker \<Rightarrow> bool" where
  "picker_ok mp \<longleftrightarrow>
     numOfMoves mp \<le> length (moves mp) \<and> (\<forall>e \<in> set (remaining mp). score e > - 10000000)"

definition sel_ok :: "(MovePicker \<Rightarrow> int) \<Rightarrow> bool" where
  "sel_ok sel \<longleftrightarrow>
     (\<forall>s. movesPicked s < numOfMoves s \<and> picker_ok s
        \<longrightarrow> int (movesPicked s) \<le> sel s \<and> sel s < int (numOfMoves s))"

definition sel_best :: "(MovePicker \<Rightarrow> int) \<Rightarrow> bool" where
  "sel_best sel \<longleftrightarrow>
     (\<forall>s. movesPicked s < numOfMoves s \<and> picker_ok s
        \<longrightarrow> (\<forall>e \<in> set (remaining s). score e \<le> score (moves s ! nat (sel s))))"

text \<open>
  \<open>drain f n mp\<close>: the moves the calls of \<open>f\<close> yield, one after the other, until one
  yields the sentinel, when that takes at most \<open>n\<close> calls and none of them fails.
\<close>

fun drain ::
  "(MovePicker \<Rightarrow> (error + Move \<times> MovePicker) option) \<Rightarrow> nat \<Rightarrow> MovePicker \<Rightarrow> Move list option"
where
  "drain f 0 mp = None"
| "drain f (Suc n) mp =
     (case f mp of
        Some (Inr (m, mp')) \<Rightarrow>
          if m = MOVE_NONE then Some [] else map_option ((#) m) (drain f n mp')
      | _ \<Rightarrow> None)"

text \<open>
  \<open>unscored i mp\<close>: the cells of the bucket from index \<open>i\<close> on, the part the loop of
  \<^verbatim>\<open>score_captures\<close> has not looked at yet. \<open>accepted mp m\<close>: the test that lets a move
  out of the lists of the main search: it is neither the TT move nor the mate killer, and
  it is legal. \<open>noncapture_score x mp m\<close>: the score \<^verbatim>\<open>score_noncaptures\<close> gives the move
  \<open>m\<close> (the body of its loop).
\<close>

definition unscored :: "nat \<Rightarrow> MovePicker \<Rightarrow> MoveStack list" where
  "unscored i mp = take (numOfMoves mp - i) (drop i (moves mp))"

definition accepted :: "MovePicker \<Rightarrow> Move \<Rightarrow> bool" where
  "accepted mp m \<longleftrightarrow>
     m \<noteq> ttMove mp \<and> m \<noteq> mateKiller mp \<and> pl_move_is_legal (pos mp) m (pinned mp)"

definition noncapture_score :: "Ext \<Rightarrow> MovePicker \<Rightarrow> Move \<Rightarrow> int" where
  "noncapture_score x mp m =
     (let hs = (if m = killer1 mp then HistoryMax x + 2
                else if m = killer2 mp then HistoryMax x + 1
                else move_ordering_score x (piece_on (pos mp) (move_from x m)) m);
          hs = (if hs > 0 then hs + 1000 else hs)
      in hs + mg_pst_delta (pos mp) m)"

subsection \<open>Concrete inputs\<close>

text \<open>
  The inputs the witnesses and counterexamples run on. \<open>fresh_globals\<close> is the storage of
  the file-level variables before \<^verbatim>\<open>init_phase_table\<close> runs; \<open>blank_picker\<close> is the
  storage a picker is built in, with arrays of 256 and 64 cells.
\<close>

definition fresh_globals :: PhaseGlobals where
  "fresh_globals =
     \<lparr>PhaseTable = replicate 32 PH_TT_MOVE, MainSearchPhaseIndex = 0, EvasionsPhaseIndex = 0,
      QsearchWithChecksPhaseIndex = 0, QsearchNoCapturesPhaseIndex = 0,
      QsearchWithoutChecksPhaseIndex = 0, NoMovesPhaseIndex = 0\<rparr>"

definition example_position :: "bool \<Rightarrow> Position" where
  "example_position chk =
     \<lparr>side_to_move = WHITE, is_check = chk, pieces_of_color = (\<lambda>c. 0), ep_square = SQ_NONE,
      has_pawn_on_7th = (\<lambda>c. False), discovered_check_candidates = (\<lambda>c. 0),
      pinned_pieces = (\<lambda>c. 0), see = (\<lambda>m. if m = 3 then - 100 else 0),
      midgame_value_of_piece_on = (\<lambda>s. s), type_of_piece_on = (\<lambda>s. 1),
      piece_on = (\<lambda>s. 1), square_is_empty = (\<lambda>s. True), mg_pst_delta = (\<lambda>m. 0),
      pl_move_is_legal = (\<lambda>m b. True)\<rparr>"

definition example_ext :: Ext where
  "example_ext =
     \<lparr>generate_captures = (\<lambda>p. [1, 2, 3]), generate_noncaptures = (\<lambda>p. [4, 5]),
      generate_evasions = (\<lambda>p. [6, 7]), generate_checks = (\<lambda>p b. [4]),
      move_is_legal = (\<lambda>p m b. 1 \<le> m \<and> m \<le> 5), move_is_ok = (\<lambda>m. m \<noteq> 0),
      move_promotion = (\<lambda>m. False), move_from = (\<lambda>m. m), move_to = (\<lambda>m. 10 * m),
      move_ordering_score = (\<lambda>pc m. m), HistoryMax = 50000, QueenValueMidgame = 2500\<rparr>"

definition blank_picker :: MovePicker where
  "blank_picker =
     \<lparr>pos = example_position False, pvNode = False, ttMove = 0, mateKiller = 0, killer1 = 0,
      killer2 = 0, depth = 0, phaseIndex = 0, movesPicked = 0, numOfMoves = 0,
      numOfBadCaptures = 0, badCapturesPicked = 0, dc = 0, pinned = 0,
      moves = replicate 256 \<lparr>move = 0, score = 0\<rparr>,
      badCaptures = replicate 64 \<lparr>move = 0, score = 0\<rparr>, finished = False\<rparr>"

definition scored_picker :: MovePicker where
  "scored_picker =
     blank_picker\<lparr>phaseIndex := 8, ttMove := 2, numOfMoves := 3,
       moves := [\<lparr>move = 1, score = 9\<rparr>, \<lparr>move = 2, score = 19\<rparr>, \<lparr>move = 3, score = 29\<rparr>]\<rparr>"

definition example_stack :: SearchStack where
  "example_stack = \<lparr>ss_mateKiller = 2, killers = (\<lambda>i. 0)\<rparr>"

definition example_eval :: EvalInfo where
  "example_eval = \<lparr>attackedBy = (\<lambda>c i. 0), specialized_eval_exists = False\<rparr>"

definition example_split_point :: "64 word \<Rightarrow> SplitPoint" where
  "example_split_point w =
     \<lparr>masterThread = 0, parentSplitPoint = None, slavesMask = w, sp_depth = 10,
      bestValue = 0, bestMove = 0, threatMove = 0, alpha = 0, beta = 1, nodeType = 0,
      cutNode = False, movePicker = 0, moveCount = 1, sp_pos = 0, nodes = 0, cutoff = False,
      sp_ss = 0\<rparr>"

definition example_thread :: "nat \<Rightarrow> bool \<Rightarrow> int \<Rightarrow> 64 word \<Rightarrow> Thread" where
  "example_thread i busy n w =
     \<lparr>searching = busy, maxPly = 0, splitPointsSize = n,
      splitPoints = replicate 8 (example_split_point w),
      activeSplitPoint = None, activePosition = None, idx = i\<rparr>"

definition example_world :: World where
  "example_world =
     \<lparr>pool = \<lparr>threads = [example_thread 0 True 0 0, example_thread 1 False 0 0],
              maxThreadsPerSplitPoint = 5, minimumSplitDepth = 8\<rparr>,
      nodes_searched = (\<lambda>p. 1000), pos_is_ok = (\<lambda>p. True)\<rparr>"

definition example_idle_loop :: "nat \<Rightarrow> World \<Rightarrow> World" where
  "example_idle_loop t V =
     V\<lparr>pool := upd_thread t (\<lambda>th. th\<lparr>searching := False\<rparr>)
                 (upd_sp (t, 0) (\<lambda>q. q\<lparr>nodes := 100, bestValue := 42, bestMove := 7\<rparr>)
                    (pool V))\<rparr>"




text \<open>
  \<open>captures_bucket\<close>: the picker \<open>blank_picker\<close> with the TT move 2, once the phase
  \<^verbatim>\<open>PH_GOOD_CAPTURES\<close> has been entered with the captures 1, 2 and 3 of \<open>example_ext\<close>.
\<close>

definition captures_bucket :: MovePicker where
  "captures_bucket =
     blank_picker\<lparr>phaseIndex := 2, ttMove := 2, numOfMoves := 2, numOfBadCaptures := 1,
       moves := [\<lparr>move = 1, score = 9\<rparr>, \<lparr>move = 2, score = 19\<rparr>, \<lparr>move = 3, score = - 100\<rparr>]
                @ replicate 253 \<lparr>move = 0, score = 0\<rparr>,
       badCaptures := \<lparr>move = 3, score = - 100\<rparr> # replicate 63 \<lparr>move = 0, score = 0\<rparr>\<rparr>"

section \<open>The phase table and the constructor\<close>

lemma init_phase_table_indices:
  "MainSearchPhaseIndex (init_phase_table g0) = -1"
  "EvasionsPhaseIndex (init_phase_table g0) = 5"
  "QsearchWithChecksPhaseIndex (init_phase_table g0) = 7"
  "QsearchNoCapturesPhaseIndex (init_phase_table g0) = 10"
  "QsearchWithoutChecksPhaseIndex (init_phase_table g0) = 12"
  "NoMovesPhaseIndex (init_phase_table g0) = 14"
  by (simp_all add: init_phase_table_def put_def Let_def)

lemma init_phase_table_length:
  "length (PhaseTable (init_phase_table g0)) = length (PhaseTable g0)"
  by (simp add: init_phase_table_def put_def Let_def)

lemma init_phase_table_at:
  assumes "length (PhaseTable g0) = 32"
  shows "phase_at (init_phase_table g0) 0 = Inr PH_TT_MOVE"
    and "phase_at (init_phase_table g0) 1 = Inr PH_MATE_KILLER"
    and "phase_at (init_phase_table g0) 2 = Inr PH_GOOD_CAPTURES"
    and "phase_at (init_phase_table g0) 3 = Inr PH_NONCAPTURES"
    and "phase_at (init_phase_table g0) 4 = Inr PH_BAD_CAPTURES"
    and "phase_at (init_phase_table g0) 5 = Inr PH_STOP"
    and "phase_at (init_phase_table g0) 6 = Inr PH_EVASIONS"
    and "phase_at (init_phase_table g0) 7 = Inr PH_STOP"
    and "phase_at (init_phase_table g0) 8 = Inr PH_QCAPTURES"
    and "phase_at (init_phase_table g0) 9 = Inr PH_QCHECKS"
    and "phase_at (init_phase_table g0) 10 = Inr PH_STOP"
    and "phase_at (init_phase_table g0) 11 = Inr PH_QCHECKS"
    and "phase_at (init_phase_table g0) 12 = Inr PH_STOP"
    and "phase_at (init_phase_table g0) 13 = Inr PH_QCAPTURES"
    and "phase_at (init_phase_table g0) 14 = Inr PH_STOP"
    and "phase_at (init_phase_table g0) 15 = Inr PH_STOP"
  using assms
  by (simp_all add: phase_at_def init_phase_table_length)
     (simp_all add: init_phase_table_def put_def Let_def eval_nat_numeral)

text \<open>
  C3. The constructor clears the mate killer when it equals the transposition-table move,
  and sets \<^verbatim>\<open>phaseIndex\<close> to the index variable of the row the claim names: the cells
  after that index hold the phases of the row. The no-captures hint holds exactly when
  eval info was supplied, the attack set of the side to move misses the opponent's
  pieces, no specialized evaluation exists, there is no en-passant square and the side to
  move has no pawn on the 7th rank.
\<close>

theorem MovePicker_ctor_row:
  "length (PhaseTable g0) = 32 \<Longrightarrow>
   (let g = init_phase_table g0;
        mp = MovePicker_ctor g raw p pv ttm ss d ei
    in (ss_mateKiller ss = ttm \<longrightarrow> mateKiller mp = MOVE_NONE)
     \<and> (ss_mateKiller ss \<noteq> ttm \<longrightarrow> mateKiller mp = ss_mateKiller ss)
     \<and> (is_check p \<longrightarrow>
          phaseIndex mp = EvasionsPhaseIndex g
          \<and> row_is g (phaseIndex mp + 1) [PH_EVASIONS, PH_STOP])
     \<and> (\<not> is_check p \<and> d > 0 \<longrightarrow>
          phaseIndex mp = MainSearchPhaseIndex g
          \<and> row_is g (phaseIndex mp + 1)
               [PH_TT_MOVE, PH_MATE_KILLER, PH_GOOD_CAPTURES, PH_NONCAPTURES, PH_BAD_CAPTURES,
                PH_STOP])
     \<and> (\<not> is_check p \<and> d = 0 \<and> noCaptures_hint p ei \<longrightarrow>
          phaseIndex mp = QsearchNoCapturesPhaseIndex g
          \<and> row_is g (phaseIndex mp + 1) [PH_QCHECKS, PH_STOP])
     \<and> (\<not> is_check p \<and> d = 0 \<and> \<not> noCaptures_hint p ei \<longrightarrow>
          phaseIndex mp = QsearchWithChecksPhaseIndex g
          \<and> row_is g (phaseIndex mp + 1) [PH_QCAPTURES, PH_QCHECKS, PH_STOP])
     \<and> (\<not> is_check p \<and> d < 0 \<and> noCaptures_hint p ei \<longrightarrow>
          phaseIndex mp = NoMovesPhaseIndex g
          \<and> row_is g (phaseIndex mp + 1) [PH_STOP])
     \<and> (\<not> is_check p \<and> d < 0 \<and> \<not> noCaptures_hint p ei \<longrightarrow>
          phaseIndex mp = QsearchWithoutChecksPhaseIndex g
          \<and> row_is g (phaseIndex mp + 1) [PH_QCAPTURES, PH_STOP])
     \<and> (noCaptures_hint p ei \<longleftrightarrow>
          (\<exists>e. ei = Some e
             \<and> (attackedBy e (side_to_move p) 0
                  AND pieces_of_color p (opposite_color (side_to_move p))) = 0
             \<and> \<not> specialized_eval_exists e
             \<and> ep_square p = SQ_NONE
             \<and> \<not> has_pawn_on_7th p (side_to_move p))))"
proof -
  assume len: "length (PhaseTable g0) = 32"
  have hint: "noCaptures_hint p ei \<longleftrightarrow>
          (\<exists>e. ei = Some e
             \<and> (attackedBy e (side_to_move p) 0
                  AND pieces_of_color p (opposite_color (side_to_move p))) = 0
             \<and> \<not> specialized_eval_exists e
             \<and> ep_square p = SQ_NONE
             \<and> \<not> has_pawn_on_7th p (side_to_move p))"
    by (cases ei) (simp_all add: noCaptures_hint_def Let_def)
  show ?thesis
    unfolding Let_def
    apply (intro conjI impI)
    apply (simp_all add: MovePicker_ctor_def Let_def init_phase_table_indices
                 init_phase_table_at [OF len])
    apply (rule hint)
    done
qed

theorem MovePicker_ctor_row_witness:
  "length (PhaseTable fresh_globals) = 32
   \<and> (let g = init_phase_table fresh_globals;
          mp = MovePicker_ctor g blank_picker (example_position False) True 2 example_stack 0
                 (Some example_eval)
      in mateKiller mp = MOVE_NONE
       \<and> noCaptures_hint (example_position False) (Some example_eval)
       \<and> phaseIndex mp = 10
       \<and> row_is g (phaseIndex mp + 1) [PH_QCHECKS, PH_STOP])"
proof -
  have len: "length (PhaseTable fresh_globals) = 32"
    by (simp add: fresh_globals_def)
  have hint: "noCaptures_hint (example_position False) (Some example_eval)"
    by (simp add: noCaptures_hint_def example_position_def example_eval_def Let_def)
  have chk: "\<not> is_check (example_position False)"
    by (simp add: example_position_def)
  have mk: "ss_mateKiller example_stack = 2"
    by (simp add: example_stack_def)
  show ?thesis
    using MovePicker_ctor_row [OF len, of blank_picker "example_position False" True 2
        example_stack 0 "Some example_eval"] len hint chk mk
    by (clarsimp simp: Let_def init_phase_table_indices)
qed

text \<open>
  C10. The claim fails on the code. A picker built for the main search starts with
  \<^verbatim>\<open>phaseIndex = MainSearchPhaseIndex = -1\<close>, and the first thing \<^verbatim>\<open>pick_move_from_list\<close>
  does is read \<^verbatim>\<open>PhaseTable[phaseIndex]\<close>: the read is out of bounds.
\<close>

theorem first_pick_out_of_bounds:
  "\<not> is_check p \<Longrightarrow> 0 < d \<Longrightarrow>
   (let g = init_phase_table g0;
        mp = MovePicker_ctor g raw p pv ttm ss d ei
    in phaseIndex mp = - 1 \<and> pick_move_from_list g mp = Some (Inl OutOfBounds))"
  by (simp add: Let_def pick_move_from_list_def phase_at_def MovePicker_ctor_def
        init_phase_table_indices)

theorem first_pick_out_of_bounds_witness:
  "\<not> is_check (example_position False) \<and> (0 :: int) < 1
   \<and> (let g = init_phase_table fresh_globals;
          mp = MovePicker_ctor g blank_picker (example_position False) False 0 example_stack 1 None
      in phaseIndex mp = - 1 \<and> pick_move_from_list g mp = Some (Inl OutOfBounds))"
proof -
  have chk: "\<not> is_check (example_position False)"
    by (simp add: example_position_def)
  show ?thesis
    using first_pick_out_of_bounds [OF chk, of 1 fresh_globals blank_picker False 0
        example_stack None] chk
    by simp
qed



section \<open>What the loops leave alone\<close>

lemma pick_loop_frame:
  assumes "pick_loop sel accept mp = Some r"
  shows "\<forall>m mp'. r = Inr (m, mp') \<longrightarrow> mp' = mp\<lparr>moves := moves mp', movesPicked := movesPicked mp'\<rparr>"
  using assms
proof (induct sel accept mp r rule: pick_loop.raw_induct [rotated 1, consumes 1])
  case (1 pick_loop sel accept mp r)
  show ?case
  proof (intro allI impI)
    fix m mp'
    assume r: "r = Inr (m, mp')"
    show "mp' = mp\<lparr>moves := moves mp', movesPicked := movesPicked mp'\<rparr>"
    proof (cases "movesPicked mp < numOfMoves mp \<and> \<not> length (moves mp) < numOfMoves mp")
      case False
      with "1.hyps"(2) r show ?thesis
        by (auto split: if_splits)
    next
      case True
      show ?thesis
      proof (cases "sel mp = - 1")
        case True
        with \<open>movesPicked mp < numOfMoves mp \<and> \<not> length (moves mp) < numOfMoves mp\<close> "1.hyps"(2)
        have "pick_loop sel accept mp = Some r"
          by (simp add: Let_def)
        from "1.hyps"(1) [OF this] r show ?thesis
          by simp
      next
        case False
        let ?mp1 = "mp\<lparr>moves := (moves mp)[nat (sel mp) := moves mp ! movesPicked mp],
                        movesPicked := movesPicked mp + 1\<rparr>"
        from False True "1.hyps"(2) r
        consider "mp' = ?mp1" | "pick_loop sel accept ?mp1 = Some r"
          by (auto simp: Let_def split: if_splits)
        then show ?thesis
        proof cases
          case 1
          then show ?thesis by simp
        next
          case 2
          from "1.hyps"(1) [OF this] r
          have "mp' = ?mp1\<lparr>moves := moves mp', movesPicked := movesPicked mp'\<rparr>"
            by simp
          then show ?thesis by simp
        qed
      qed
    qed
  qed
qed

lemma pick_bad_captures_frame:
  "pick_bad_captures accept mp = Inr (m, mp')
   \<Longrightarrow> mp' = mp\<lparr>badCapturesPicked := badCapturesPicked mp'\<rparr>"
proof (induction accept mp rule: pick_bad_captures.induct)
  case (1 accept mp)
  let ?mp1 = "mp\<lparr>badCapturesPicked := badCapturesPicked mp + 1\<rparr>"
  let ?m = "move (badCaptures mp ! badCapturesPicked mp)"
  note eq = pick_bad_captures.simps [of accept mp]
  show ?case
  proof (cases "badCapturesPicked mp < numOfBadCaptures mp")
    case False
    with eq "1.prems" show ?thesis by simp
  next
    case lt: True
    show ?thesis
    proof (cases "length (badCaptures mp) \<le> badCapturesPicked mp")
      case True
      with lt eq "1.prems" show ?thesis by simp
    next
      case inb: False
      show ?thesis
      proof (cases "accept ?m")
        case True
        with lt inb eq "1.prems" have "mp' = ?mp1" by (simp add: Let_def)
        then show ?thesis by simp
      next
        case False
        with lt inb eq "1.prems" have "pick_bad_captures accept ?mp1 = Inr (m, mp')"
          by (simp add: Let_def)
        from "1.IH" [OF lt inb refl refl False this]
        have "mp' = ?mp1\<lparr>badCapturesPicked := badCapturesPicked mp'\<rparr>" .
        then show ?thesis by simp
      qed
    qed
  qed
qed

lemma pick_in_order_frame:
  "pick_in_order accept mp = Inr (m, mp')
   \<Longrightarrow> mp' = mp\<lparr>movesPicked := movesPicked mp'\<rparr>"
proof (induction accept mp rule: pick_in_order.induct)
  case (1 accept mp)
  let ?mp1 = "mp\<lparr>movesPicked := movesPicked mp + 1\<rparr>"
  let ?m = "move (moves mp ! movesPicked mp)"
  note eq = pick_in_order.simps [of accept mp]
  show ?case
  proof (cases "movesPicked mp < numOfMoves mp")
    case False
    with eq "1.prems" show ?thesis by simp
  next
    case lt: True
    show ?thesis
    proof (cases "length (moves mp) \<le> movesPicked mp")
      case True
      with lt eq "1.prems" show ?thesis by simp
    next
      case inb: False
      show ?thesis
      proof (cases "accept ?m")
        case True
        with lt inb eq "1.prems" have "mp' = ?mp1" by (simp add: Let_def)
        then show ?thesis by simp
      next
        case False
        with lt inb eq "1.prems" have "pick_in_order accept ?mp1 = Inr (m, mp')"
          by (simp add: Let_def)
        from "1.IH" [OF lt inb refl refl False this]
        have "mp' = ?mp1\<lparr>movesPicked := movesPicked mp'\<rparr>" .
        then show ?thesis by simp
      qed
    qed
  qed
qed

lemma bind_result_Inr:
  assumes "Option.bind a (\<lambda>r. case r of Inl e \<Rightarrow> Some (Inl e) | Inr (m, s) \<Rightarrow> f m s) = Some (Inr z)"
  obtains m s where "a = Some (Inr (m, s))" and "f m s = Some (Inr z)"
proof -
  from assms obtain r where a: "a = Some r"
    by (cases a) simp_all
  show thesis
  proof (cases r)
    case (Inl e)
    with assms a show thesis by simp
  next
    case (Inr p)
    obtain m s where p: "p = (m, s)" by (cases p)
    with assms a Inr have "f m s = Some (Inr z)" by simp
    with a Inr p that show thesis by simp
  qed
qed

lemma pick_phase_finished:
  assumes "pick_phase ph mp = Some (Inr (m, mp'))"
  shows "finished mp' = finished mp"
proof -
  have loop: "finished mp' = finished mp" if "pick_loop sel accept mp = Some (Inr (m, mp'))"
    for sel accept
  proof -
    from pick_loop_frame [OF that]
    have "mp' = mp\<lparr>moves := moves mp', movesPicked := movesPicked mp'\<rparr>" by simp
    then have "finished mp' = finished (mp\<lparr>moves := moves mp', movesPicked := movesPicked mp'\<rparr>)"
      by simp
    then show ?thesis by simp
  qed
  have bad: "finished mp' = finished mp" if "pick_bad_captures accept mp = Inr (m, mp')"
    for accept
  proof -
    from pick_bad_captures_frame [OF that]
    have "finished mp' = finished (mp\<lparr>badCapturesPicked := badCapturesPicked mp'\<rparr>)"
      by simp
    then show ?thesis by simp
  qed
  have ord: "finished mp' = finished mp" if "pick_in_order accept mp = Inr (m, mp')"
    for accept
  proof -
    from pick_in_order_frame [OF that]
    have "finished mp' = finished (mp\<lparr>movesPicked := movesPicked mp'\<rparr>)"
      by simp
    then show ?thesis by simp
  qed
  from assms show ?thesis
    by (cases ph) (auto split: if_splits dest: loop bad ord)
qed

lemma pick_move_from_list_finished:
  "pick_move_from_list g mp = Some (Inr (m, mp')) \<Longrightarrow> finished mp' = finished mp"
  by (auto simp: pick_move_from_list_def split: sum.splits dest: pick_phase_finished)

lemma score_captures_loop_finished:
  "score_captures_loop x i mp = Inr mp' \<Longrightarrow> finished mp' = finished mp"
proof (induction x i mp rule: score_captures_loop.induct)
  case (1 x i mp)
  note eq = score_captures_loop.simps [of x i mp]
  show ?case
  proof (cases "i < numOfMoves mp")
    case False
    with eq "1.prems" show ?thesis by simp
  next
    case lt: True
    show ?thesis
    proof (cases "length (moves mp) < numOfMoves mp")
      case True
      with lt eq "1.prems" show ?thesis by simp
    next
      case inb: False
      show ?thesis
      proof (cases "see (pos mp) (move (moves mp ! i)) \<ge> 0")
        case True
        let ?mp1 = "mp\<lparr>moves := (moves mp)[i := (moves mp ! i)\<lparr>score :=
                       mvv_lva x (pos mp) (move (moves mp ! i))\<rparr>]\<rparr>"
        from True lt inb eq "1.prems" have "score_captures_loop x (i + 1) ?mp1 = Inr mp'"
          by (simp add: Let_def)
        from "1.IH"(1) [OF lt inb refl refl True this] show ?thesis by simp
      next
        case False
        let ?ms1 = "(moves mp)[i := (moves mp ! i)\<lparr>score := see (pos mp) (move (moves mp ! i))\<rparr>]"
        let ?mp1 = "mp\<lparr>moves := ?ms1[i := ?ms1 ! (numOfMoves mp - 1)],
                           badCaptures := (badCaptures mp)[numOfBadCaptures mp := ?ms1 ! i],
                           numOfBadCaptures := numOfBadCaptures mp + 1,
                           numOfMoves := numOfMoves mp - 1\<rparr>"
        from False lt inb eq "1.prems"
        have a: "numOfBadCaptures mp < 63" and b: "numOfBadCaptures mp < length (badCaptures mp)"
          by (auto simp: Let_def split: if_splits)
        with False lt inb eq "1.prems" have "score_captures_loop x i ?mp1 = Inr mp'"
          by (simp add: Let_def)
        from "1.IH"(2) [OF lt inb refl refl False _ _ refl refl refl this] a b
        show ?thesis by simp
      qed
    qed
  qed
qed

lemma next_phase_finished:
  "next_phase x ph mp = Break mp' \<or> next_phase x ph mp = Return (Inr (m, mp'))
   \<Longrightarrow> finished mp' = finished mp"
  by (cases ph)
     (auto simp: generate_def score_each_def score_noncaptures_def score_evasions_def
        score_qcaptures_def score_captures_def
        split: if_splits sum.splits dest: score_captures_loop_finished)

lemma get_next_move_finished:
  assumes "get_next_move x g mp = Some r"
  shows "\<forall>m mp'. r = Inr (m, mp') \<longrightarrow> finished mp' = finished mp"
  using assms
proof (induct x g mp r rule: get_next_move.raw_induct [rotated 1, consumes 1])
  case (1 get_next_move x g mp r)
  show ?case
  proof (intro allI impI)
    fix m mp'
    assume r: "r = Inr (m, mp')"
    from "1.hyps"(2) r obtain m1 mp1 where
      p: "pick_move_from_list g mp = Some (Inr (m1, mp1))"
      by (auto elim: bind_result_Inr)
    note f1 = pick_move_from_list_finished [OF p]
    show "finished mp' = finished mp"
    proof (cases "m1 \<noteq> MOVE_NONE")
      case True
      with "1.hyps"(2) p r have "mp' = mp1"
        by (auto split: if_splits)
      with f1 show ?thesis by simp
    next
      case False
      let ?mp2 = "mp1\<lparr>phaseIndex := phaseIndex mp1 + 1\<rparr>"
      from False "1.hyps"(2) p r obtain ph where
        ph: "phase_at g (phaseIndex ?mp2) = Inr ph"
        by (auto simp: Let_def split: sum.splits)
      show ?thesis
      proof (cases "next_phase x ph ?mp2")
        case (Return res)
        with False "1.hyps"(2) p r ph have "res = Inr (m, mp')"
          by (simp add: Let_def)
        with Return next_phase_finished [of x ph ?mp2 mp' m] f1 show ?thesis
          by simp
      next
        case (Break mp3)
        with False "1.hyps"(2) p r ph have "get_next_move x g mp3 = Some r"
          by (simp add: Let_def)
        from "1.hyps"(1) [OF this] r have "finished mp' = finished mp3" by simp
        with Break next_phase_finished [of x ph ?mp2 mp3 m] f1 show ?thesis
          by simp
      qed
    qed
  qed
qed

section \<open>The locked variant\<close>

lemma locked_finished_fixed:
  "finished mp \<Longrightarrow> locked_call_after x g n mp = Some (Inr (MOVE_NONE, mp))"
  by (induction n) (simp_all add: get_next_move_locked_def)

text \<open>
  C4. The locked variant answers \<open>MOVE_NONE\<close> at once, the picker untouched, when
  \<^verbatim>\<open>finished\<close> is set. When it is not set and the inner pull returns, the locked call
  returns the same move and \<^verbatim>\<open>finished\<close> is set afterwards exactly when that move is the
  sentinel. Once a locked call has answered \<open>MOVE_NONE\<close>, \<^verbatim>\<open>finished\<close> is set and every
  later locked call answers \<open>MOVE_NONE\<close>.
\<close>

theorem get_next_move_locked_latch:
  "(finished mp \<longrightarrow> get_next_move_locked x g mp = Some (Inr (MOVE_NONE, mp)))
   \<and> (\<not> finished mp \<and> get_next_move x g mp = Some (Inr (m, mp1)) \<longrightarrow>
        get_next_move_locked x g mp = Some (Inr (m, mp1\<lparr>finished := (m = MOVE_NONE)\<rparr>))
        \<and> \<not> finished mp1)
   \<and> (get_next_move_locked x g mp = Some (Inr (MOVE_NONE, mp')) \<longrightarrow>
        finished mp' \<and> (\<forall>n. locked_call_after x g n mp' = Some (Inr (MOVE_NONE, mp'))))"
proof (intro conjI impI)
  assume "finished mp"
  then show "get_next_move_locked x g mp = Some (Inr (MOVE_NONE, mp))"
    by (simp add: get_next_move_locked_def)
next
  assume a: "\<not> finished mp \<and> get_next_move x g mp = Some (Inr (m, mp1))"
  with get_next_move_finished [of x g mp "Inr (m, mp1)"]
  show nf: "\<not> finished mp1" by simp
  have "mp1\<lparr>finished := False\<rparr> = mp1" using nf by simp
  with a show "get_next_move_locked x g mp = Some (Inr (m, mp1\<lparr>finished := (m = MOVE_NONE)\<rparr>))"
    by (simp add: get_next_move_locked_def)
next
  assume a: "get_next_move_locked x g mp = Some (Inr (MOVE_NONE, mp'))"
  show f: "finished mp'"
  proof (cases "finished mp")
    case True
    with a show ?thesis by (simp add: get_next_move_locked_def)
  next
    case False
    with a have "Option.bind (get_next_move x g mp)
          (\<lambda>r. case r of
                  Inl e \<Rightarrow> Some (Inl e)
                | Inr (m, mp1) \<Rightarrow>
                    Some (Inr (m, if m = MOVE_NONE then mp1\<lparr>finished := True\<rparr> else mp1)))
       = Some (Inr (MOVE_NONE, mp'))"
      by (simp add: get_next_move_locked_def)
    then obtain m1 mp1 where
      "Some (Inr (m1, if m1 = MOVE_NONE then mp1\<lparr>finished := True\<rparr> else mp1))
       = Some (Inr (MOVE_NONE, mp'))"
      by (elim bind_result_Inr) blast
    then show ?thesis by auto
  qed
  show "\<forall>n. locked_call_after x g n mp' = Some (Inr (MOVE_NONE, mp'))"
    using f by (simp add: locked_finished_fixed)
qed

lemma no_moves_row_pull:
  assumes "length (PhaseTable g0) = 32" "phaseIndex mp = 14"
  shows "get_next_move x (init_phase_table g0) mp
         = Some (Inr (MOVE_NONE, mp\<lparr>phaseIndex := 15\<rparr>))"
  by (subst get_next_move.simps)
     (simp add: pick_move_from_list_def init_phase_table_at [OF assms(1)] assms(2) Let_def)

theorem get_next_move_locked_latch_witness:
  "(let g = init_phase_table fresh_globals;
        mp = blank_picker\<lparr>phaseIndex := 14\<rparr>;
        mp1 = mp\<lparr>phaseIndex := 15\<rparr>;
        mp' = mp1\<lparr>finished := True\<rparr>
    in \<not> finished mp
     \<and> get_next_move example_ext g mp = Some (Inr (MOVE_NONE, mp1))
     \<and> get_next_move_locked example_ext g mp = Some (Inr (MOVE_NONE, mp'))
     \<and> finished mp'
     \<and> get_next_move_locked example_ext g mp' = Some (Inr (MOVE_NONE, mp'))
     \<and> locked_call_after example_ext g 3 mp' = Some (Inr (MOVE_NONE, mp')))"
proof -
  let ?g = "init_phase_table fresh_globals"
  let ?mp = "blank_picker\<lparr>phaseIndex := 14\<rparr>"
  let ?mp1 = "?mp\<lparr>phaseIndex := 15\<rparr>"
  let ?mp' = "?mp1\<lparr>finished := True\<rparr>"
  have len: "length (PhaseTable fresh_globals) = 32"
    by (simp add: fresh_globals_def)
  have nf: "\<not> finished ?mp"
    by (simp add: blank_picker_def)
  have pull: "get_next_move example_ext ?g ?mp = Some (Inr (MOVE_NONE, ?mp1))"
    using no_moves_row_pull [OF len, of ?mp example_ext] by simp
  note thm1 = get_next_move_locked_latch [of ?mp example_ext ?g MOVE_NONE ?mp1 ?mp']
  note thm2 = get_next_move_locked_latch [of ?mp' example_ext ?g MOVE_NONE ?mp1 ?mp']
  from thm1 nf pull have l1: "get_next_move_locked example_ext ?g ?mp = Some (Inr (MOVE_NONE, ?mp'))"
    by simp
  with thm1 have l2: "\<forall>n. locked_call_after example_ext ?g n ?mp' = Some (Inr (MOVE_NONE, ?mp'))"
    by blast
  from thm2 have l3: "get_next_move_locked example_ext ?g ?mp' = Some (Inr (MOVE_NONE, ?mp'))"
    by simp
  from nf pull l1 l2 l3 show ?thesis
    by (simp add: Let_def)
qed

section \<open>Availability of a thread\<close>

lemma mask_bit_test:
  "n < 64 \<Longrightarrow> (w AND 2 ^ n \<noteq> 0) \<longleftrightarrow> bit w n" for w :: "64 word"
  by (simp add: and_exp_eq_0_iff_not_bit)

text \<open>
  C5. For a thread whose split-point stack is within its array and a master whose index
  is below 64, \<^verbatim>\<open>is_available_to\<close> answers true exactly when the thread is not searching
  and either has no split point or has the master's bit set in the \<^verbatim>\<open>slavesMask\<close> of the
  split point on top of its own stack.
\<close>

theorem is_available_to_iff:
  "0 \<le> splitPointsSize th \<Longrightarrow> splitPointsSize th \<le> int (length (splitPoints th))
   \<Longrightarrow> idx master < 64
   \<Longrightarrow> is_available_to th master =
        Inr (\<not> searching th
             \<and> (splitPointsSize th = 0
                \<or> bit (slavesMask (splitPoints th ! nat (splitPointsSize th - 1))) (idx master)))"
proof -
  assume lo: "0 \<le> splitPointsSize th"
    and hi: "splitPointsSize th \<le> int (length (splitPoints th))"
    and ix: "idx master < 64"
  show ?thesis
  proof (cases "searching th \<or> splitPointsSize th = 0")
    case True
    then show ?thesis by (auto simp: is_available_to_def)
  next
    case False
    with lo hi have inb: "\<not> (splitPointsSize th - 1 < 0
                            \<or> int (length (splitPoints th)) \<le> splitPointsSize th - 1)"
      by simp
    from False inb ix show ?thesis
      by (simp add: is_available_to_def Let_def mask_bit_test [OF ix])
  qed
qed

theorem is_available_to_iff_witness:
  "is_available_to (example_thread 3 False 1 1) (example_thread 0 True 0 0) = Inr True
   \<and> is_available_to (example_thread 3 False 1 1) (example_thread 1 True 0 0) = Inr False
   \<and> is_available_to (example_thread 3 False 0 1) (example_thread 1 True 0 0) = Inr True
   \<and> is_available_to (example_thread 3 True 0 1) (example_thread 1 True 0 0) = Inr False"
proof -
  have a: "is_available_to (example_thread 3 False 1 1) (example_thread 0 True 0 0) = Inr True"
    using is_available_to_iff [of "example_thread 3 False 1 1" "example_thread 0 True 0 0"]
    by (simp add: example_thread_def example_split_point_def)
  have b: "is_available_to (example_thread 3 False 1 1) (example_thread 1 True 0 0) = Inr False"
    using is_available_to_iff [of "example_thread 3 False 1 1" "example_thread 1 True 0 0"]
    by (simp add: example_thread_def example_split_point_def bit_1_iff)
  have c: "is_available_to (example_thread 3 False 0 1) (example_thread 1 True 0 0) = Inr True"
    using is_available_to_iff [of "example_thread 3 False 0 1" "example_thread 1 True 0 0"]
    by (simp add: example_thread_def example_split_point_def)
  have d: "is_available_to (example_thread 3 True 0 1) (example_thread 1 True 0 0) = Inr False"
    using is_available_to_iff [of "example_thread 3 True 0 1" "example_thread 1 True 0 0"]
    by (simp add: example_thread_def example_split_point_def)
  from a b c d show ?thesis by simp
qed

section \<open>Reading the options\<close>












section \<open>Splitting\<close>

lemma upd_thread_length [simp]: "length (threads (upd_thread t f P)) = length (threads P)"
  by (simp add: upd_thread_def)

lemma upd_sp_length [simp]: "length (threads (upd_sp r f P)) = length (threads P)"
  by (simp add: upd_sp_def)

lemma upd_sp_size:
  "splitPointsSize (threads (upd_sp r f P) ! i) = splitPointsSize (threads P ! i)"
proof (cases "fst r < length (threads P)")
  case True
  then show ?thesis
    by (cases "i = fst r") (simp_all add: upd_sp_def upd_thread_def)
next
  case False
  then show ?thesis by (simp add: upd_sp_def upd_thread_def list_update_beyond)
qed

lemma book_slaves_frame:
  "book_slaves Fake t sp slavesCnt P = Inr (n, P')
   \<Longrightarrow> length (threads P') = length (threads P)
     \<and> (\<forall>i. splitPointsSize (threads P' ! i) = splitPointsSize (threads P ! i))"
proof (induction Fake t sp slavesCnt P rule: book_slaves.induct)
  case (1 Fake t sp slavesCnt P)
  note eq = book_slaves.simps [of Fake t sp slavesCnt P]
  show ?case
  proof (cases "available_slave P (threads P ! t)")
    case (Inl e)
    with eq "1.prems" show ?thesis by simp
  next
    case (Inr so)
    show ?thesis
    proof (cases so)
      case None
      with Inr eq "1.prems" show ?thesis by simp
    next
      case (Some s)
      show ?thesis
      proof (cases "slavesCnt + 1 \<le> maxThreadsPerSplitPoint P \<and> \<not> Fake")
        case False
        with Some Inr eq "1.prems" show ?thesis by auto
      next
        case go: True
        show ?thesis
        proof (cases "64 \<le> idx (threads P ! s)")
          case True
          with go Some Inr eq "1.prems" show ?thesis by simp
        next
          case False
          let ?P1 = "upd_sp sp (\<lambda>q. q\<lparr>slavesMask :=
                                      slavesMask q OR push_bit (idx (threads P ! s)) 1\<rparr>) P"
          let ?P2 = "upd_thread s (\<lambda>th. th\<lparr>activeSplitPoint := Some sp, searching := True\<rparr>) ?P1"
          from False go Some Inr eq "1.prems"
          have rec: "book_slaves Fake t sp (slavesCnt + 1) ?P2 = Inr (n, P')"
            by (simp add: Let_def)
          from "1.IH" [OF Inr Some go False refl refl rec]
          have len: "length (threads P') = length (threads ?P2)"
            and sz: "\<And>i. splitPointsSize (threads P' ! i) = splitPointsSize (threads ?P2 ! i)"
            by simp_all
          have sz2: "splitPointsSize (threads ?P2 ! i) = splitPointsSize (threads P ! i)" for i
          proof (cases "s < length (threads P)")
            case True
            then show ?thesis
              by (cases "i = s") (simp_all add: upd_thread_def upd_sp_size)
          next
            case False
            then show ?thesis by (simp add: upd_thread_def upd_sp_size list_update_beyond)
          qed
          from len sz sz2 show ?thesis by simp
        qed
      qed
    qed
  qed
qed

lemma split_finish_result:
  assumes "split_finish t slot p V = Inr (W', bv, bm)"
  shows "t < length (threads (pool V))"
    and "threads (pool W') ! t =
           (threads (pool V) ! t)\<lparr>searching := True,
              splitPointsSize := splitPointsSize (threads (pool V) ! t) - 1,
              activeSplitPoint := parentSplitPoint (splitPoints (threads (pool V) ! t) ! slot),
              activePosition := Some p\<rparr>"
    and "nodes_searched W' p
         = nodes_searched V p + nodes (splitPoints (threads (pool V) ! t) ! slot)"
    and "bv = bestValue (splitPoints (threads (pool V) ! t) ! slot)"
    and "bm = bestMove (splitPoints (threads (pool V) ! t) ! slot)"
  using assms
  by (auto simp: split_finish_def Let_def upd_thread_def split: if_splits)

lemma split_begin_size:
  "t < length (threads P) \<Longrightarrow>
   splitPointsSize (threads (split_begin t P p stack a b bv0 bm0 d threat mc picker nt cn) ! t)
   = splitPointsSize (threads P ! t) + 1"
  by (simp add: split_begin_def Let_def upd_thread_def upd_sp_size)

text \<open>
  C6. Let \<^verbatim>\<open>idle_loop\<close> leave the master's \<^verbatim>\<open>splitPointsSize\<close> and the node counter of
  the split position as it found them. When \<^verbatim>\<open>split\<close> returns, with \<open>sp\<close> the split point
  it used (the cell of the master's array at the pre-split \<^verbatim>\<open>splitPointsSize\<close>): the node
  counter of the position is its pre-split value plus \<^verbatim>\<open>sp.nodes\<close>, the master is
  searching, its \<^verbatim>\<open>splitPointsSize\<close> is the pre-split value, its \<^verbatim>\<open>activeSplitPoint\<close> is
  \<^verbatim>\<open>sp.parentSplitPoint\<close>, its \<^verbatim>\<open>activePosition\<close> is the split position, and the two
  out-parameters hold \<^verbatim>\<open>sp.bestMove\<close> and \<^verbatim>\<open>sp.bestValue\<close>.
\<close>

theorem split_restores_master:
  assumes size_kept: "\<And>V. splitPointsSize (threads (pool (idle_loop t V)) ! t)
                           = splitPointsSize (threads (pool V) ! t)"
    and nodes_kept: "\<And>V. nodes_searched (idle_loop t V) p = nodes_searched V p"
    and ret: "split VALUE_INFINITE Fake idle_loop t W p stack a b bv0 bm0 d threat mc picker nt cn
              = Inr (W', bv, bm)"
  shows "(let this = threads (pool W) ! t;
              this' = threads (pool W') ! t;
              sp = splitPoints this' ! nat (splitPointsSize this)
          in nodes_searched W' p = nodes_searched W p + nodes sp
           \<and> searching this'
           \<and> splitPointsSize this' = splitPointsSize this
           \<and> activeSplitPoint this' = parentSplitPoint sp
           \<and> activePosition this' = Some p
           \<and> bm = bestMove sp
           \<and> bv = bestValue sp)"
proof -
  let ?th0 = "threads (pool W) ! t"
  let ?slot = "nat (splitPointsSize ?th0)"
  let ?P = "split_begin t (pool W) p stack a b bv0 bm0 d threat mc picker nt cn"
  from ret have t: "t < length (threads (pool W))"
    by (auto simp: split_def split: if_splits)
  from ret t obtain n P3 where
    book: "book_slaves Fake t (t, ?slot) 1 ?P = Inr (n, P3)"
    and fin: "(if n > 1 \<or> Fake
               then split_finish t ?slot p (idle_loop t (W\<lparr>pool := P3\<rparr>))
               else split_finish t ?slot p (W\<lparr>pool := P3\<rparr>)) = Inr (W', bv, bm)"
    by (auto simp: split_def Let_def split: if_splits sum.splits prod.splits)
  from book_slaves_frame [OF book] split_begin_size [OF t]
  have sz3: "splitPointsSize (threads P3 ! t) = splitPointsSize ?th0 + 1"
    by simp
  define V where "V = (if n > 1 \<or> Fake then idle_loop t (W\<lparr>pool := P3\<rparr>) else W\<lparr>pool := P3\<rparr>)"
  from fin have finV: "split_finish t ?slot p V = Inr (W', bv, bm)"
    by (cases "n > 1 \<or> Fake") (simp_all add: V_def)
  have szV: "splitPointsSize (threads (pool V) ! t) = splitPointsSize ?th0 + 1"
    using sz3 size_kept [of "W\<lparr>pool := P3\<rparr>"]
    by (cases "n > 1 \<or> Fake") (simp_all add: V_def)
  have ndV: "nodes_searched V p = nodes_searched W p"
    using nodes_kept [of "W\<lparr>pool := P3\<rparr>"]
    by (cases "n > 1 \<or> Fake") (simp_all add: V_def)
  note r = split_finish_result [OF finV]
  have sp: "splitPoints (threads (pool W') ! t) = splitPoints (threads (pool V) ! t)"
    by (simp add: r(2))
  show ?thesis
    unfolding Let_def sp
    using r(3,4,5) szV ndV by (simp add: r(2))
qed

lemma example_idle_loop_size:
  "splitPointsSize (threads (pool (example_idle_loop t V)) ! t)
   = splitPointsSize (threads (pool V) ! t)"
proof (cases "t < length (threads (pool V))")
  case True
  then show ?thesis
    by (simp add: example_idle_loop_def upd_thread_def upd_sp_size)
next
  case False
  then show ?thesis
    by (simp add: example_idle_loop_def upd_thread_def upd_sp_size list_update_beyond)
qed

lemma example_split_run:
  "split 30001 False example_idle_loop 0 example_world 5 0 (- 10) 10 (- 20) 0 12 0 1 0 0 False
   = Inr (example_world\<lparr>pool := \<lparr>threads =
            [(example_thread 0 True 0 0)\<lparr>splitPoints :=
               (splitPoints (example_thread 0 True 0 0))[0 :=
                 \<lparr>masterThread = 0, parentSplitPoint = None, slavesMask = 3, sp_depth = 12,
                  bestValue = 42, bestMove = 7, threatMove = 0, alpha = - 10, beta = 10,
                  nodeType = 0, cutNode = False, movePicker = 0, moveCount = 1, sp_pos = 5,
                  nodes = 100, cutoff = False, sp_ss = 0\<rparr>],
               activePosition := Some 5\<rparr>,
             (example_thread 1 True 0 0)\<lparr>activeSplitPoint := Some (0, 0)\<rparr>],
            maxThreadsPerSplitPoint = 5, minimumSplitDepth = 8\<rparr>,
          nodes_searched := (\<lambda>p. 1000)(5 := 1100)\<rparr>, 42, 7)"
  by (simp add: split_def split_begin_def split_finish_def example_world_def example_thread_def
        example_idle_loop_def example_split_point_def upd_sp_def upd_thread_def Let_def
        book_slaves.simps available_slave_def is_available_to_def)

theorem split_restores_master_witness:
  "\<exists>W'. split 30001 False example_idle_loop 0 example_world 5 0 (- 10) 10 (- 20) 0 12 0 1 0 0
          False = Inr (W', 42, 7)
      \<and> nodes_searched W' 5 = nodes_searched example_world 5 + 100
      \<and> nodes (splitPoints (threads (pool W') ! 0) ! 0) = 100
      \<and> searching (threads (pool W') ! 0)
      \<and> splitPointsSize (threads (pool W') ! 0) = 0
      \<and> activeSplitPoint (threads (pool W') ! 0) = None
      \<and> activePosition (threads (pool W') ! 0) = Some 5"
proof -
  from example_split_run obtain W' where
    run: "split 30001 False example_idle_loop 0 example_world 5 0 (- 10) 10 (- 20) 0 12 0 1 0 0
            False = Inr (W', 42, 7)"
    and sp: "splitPoints (threads (pool W') ! 0) ! 0 =
               \<lparr>masterThread = 0, parentSplitPoint = None, slavesMask = 3, sp_depth = 12,
                bestValue = 42, bestMove = 7, threatMove = 0, alpha = - 10, beta = 10,
                nodeType = 0, cutNode = False, movePicker = 0, moveCount = 1, sp_pos = 5,
                nodes = 100, cutoff = False, sp_ss = 0\<rparr>"
    by (simp add: example_thread_def)
  have nodes_kept: "nodes_searched (example_idle_loop 0 V) 5 = nodes_searched V 5" for V
    by (simp add: example_idle_loop_def)
  have size0: "splitPointsSize (threads (pool example_world) ! 0) = 0"
    by (simp add: example_world_def example_thread_def)
  from split_restores_master [OF example_idle_loop_size nodes_kept run] run sp size0
  show ?thesis
    by (simp add: Let_def)
qed

section \<open>Drawing from a bucket\<close>

lemma window_nth:
  "n \<le> length ms \<Longrightarrow> k < n - p \<Longrightarrow> take (n - p) (drop p ms) ! k = ms ! (p + k)"
  by simp

lemma window_set:
  assumes "n \<le> length ms"
  shows "e \<in> set (take (n - p) (drop p ms)) \<longleftrightarrow> (\<exists>j. p \<le> j \<and> j < n \<and> e = ms ! j)"
proof
  assume "e \<in> set (take (n - p) (drop p ms))"
  then obtain k where k: "k < length (take (n - p) (drop p ms))"
    and e: "take (n - p) (drop p ms) ! k = e"
    by (auto simp: in_set_conv_nth)
  from k assms have kn: "k < n - p" by simp
  with e assms have "e = ms ! (p + k)" by simp
  with kn show "\<exists>j. p \<le> j \<and> j < n \<and> e = ms ! j"
    by (intro exI [of _ "p + k"]) simp
next
  assume "\<exists>j. p \<le> j \<and> j < n \<and> e = ms ! j"
  then obtain j where j: "p \<le> j" "j < n" "e = ms ! j" by auto
  with assms have "j - p < length (take (n - p) (drop p ms))" by simp
  moreover from j assms have "take (n - p) (drop p ms) ! (j - p) = e" by simp
  ultimately show "e \<in> set (take (n - p) (drop p ms))"
    by (auto simp: in_set_conv_nth)
qed

lemma best_fold:
  "fold (\<lambda>i (bestScore, bestIndex).
            if score (ms ! i) > bestScore then (score (ms ! i), int i)
            else (bestScore, bestIndex)) [i..<n] (bs, bi) = (bs', bi')
   \<Longrightarrow> bs \<le> bs'
     \<and> (\<forall>j. i \<le> j \<and> j < n \<longrightarrow> score (ms ! j) \<le> bs')
     \<and> ((bs', bi') = (bs, bi)
        \<or> (\<exists>j. i \<le> j \<and> j < n \<and> bi' = int j \<and> bs' = score (ms ! j) \<and> bs < bs'))"
proof (induction "n - i" arbitrary: i bs bi)
  case 0
  then show ?case by simp
next
  case (Suc k)
  let ?F = "\<lambda>i (bestScore, bestIndex).
            if score (ms ! i) > bestScore then (score (ms ! i), int i)
            else (bestScore, bestIndex)"
  from Suc.hyps(2) have lt: "i < n" by simp
  then have upt: "[i..<n] = i # [Suc i..<n]" by (rule upt_conv_Cons)
  from Suc.hyps(2) have k: "k = n - Suc i" by simp
  show ?case
  proof (cases "score (ms ! i) > bs")
    case True
    with Suc.prems upt have "fold ?F [Suc i..<n] (score (ms ! i), int i) = (bs', bi')"
      by simp
    from Suc.hyps(1) [OF k this]
    have a: "score (ms ! i) \<le> bs'"
      and b: "\<forall>j. Suc i \<le> j \<and> j < n \<longrightarrow> score (ms ! j) \<le> bs'"
      and c: "(bs', bi') = (score (ms ! i), int i)
        \<or> (\<exists>j. Suc i \<le> j \<and> j < n \<and> bi' = int j \<and> bs' = score (ms ! j)
               \<and> score (ms ! i) < bs')"
      by simp_all
    from a True have 1: "bs \<le> bs'" by simp
    have 2: "\<forall>j. i \<le> j \<and> j < n \<longrightarrow> score (ms ! j) \<le> bs'"
    proof (intro allI impI)
      fix j assume "i \<le> j \<and> j < n"
      then show "score (ms ! j) \<le> bs'"
        using a b by (cases "j = i") auto
    qed
    from c have 3: "\<exists>j. i \<le> j \<and> j < n \<and> bi' = int j \<and> bs' = score (ms ! j) \<and> bs < bs'"
    proof
      assume "(bs', bi') = (score (ms ! i), int i)"
      with lt True show ?thesis by (intro exI [of _ i]) simp
    next
      assume "\<exists>j. Suc i \<le> j \<and> j < n \<and> bi' = int j \<and> bs' = score (ms ! j)
               \<and> score (ms ! i) < bs'"
      then obtain j where "Suc i \<le> j" "j < n" "bi' = int j" "bs' = score (ms ! j)"
        "score (ms ! i) < bs'" by auto
      with True show ?thesis by (intro exI [of _ j]) simp
    qed
    from 1 2 3 show ?thesis by simp
  next
    case False
    with Suc.prems upt have "fold ?F [Suc i..<n] (bs, bi) = (bs', bi')"
      by simp
    from Suc.hyps(1) [OF k this]
    have a: "bs \<le> bs'"
      and b: "\<forall>j. Suc i \<le> j \<and> j < n \<longrightarrow> score (ms ! j) \<le> bs'"
      and c: "(bs', bi') = (bs, bi)
        \<or> (\<exists>j. Suc i \<le> j \<and> j < n \<and> bi' = int j \<and> bs' = score (ms ! j) \<and> bs < bs')"
      by simp_all
    have 2: "\<forall>j. i \<le> j \<and> j < n \<longrightarrow> score (ms ! j) \<le> bs'"
    proof (intro allI impI)
      fix j assume "i \<le> j \<and> j < n"
      then show "score (ms ! j) \<le> bs'"
        using a b False by (cases "j = i") auto
    qed
    from c have 3: "(bs', bi') = (bs, bi)
        \<or> (\<exists>j. i \<le> j \<and> j < n \<and> bi' = int j \<and> bs' = score (ms ! j) \<and> bs < bs')"
    proof
      assume "(bs', bi') = (bs, bi)"
      then show ?thesis by simp
    next
      assume "\<exists>j. Suc i \<le> j \<and> j < n \<and> bi' = int j \<and> bs' = score (ms ! j) \<and> bs < bs'"
      then obtain j where "Suc i \<le> j" "j < n" "bi' = int j" "bs' = score (ms ! j)" "bs < bs'"
        by auto
      then have "i \<le> j \<and> j < n \<and> bi' = int j \<and> bs' = score (ms ! j) \<and> bs < bs'" by simp
      then show ?thesis by blast
    qed
    from a 2 3 show ?thesis by simp
  qed
qed

lemma find_best_index_max:
  assumes lt: "movesPicked mp < numOfMoves mp"
    and good: "\<forall>j. movesPicked mp \<le> j \<and> j < numOfMoves mp
                 \<longrightarrow> score (moves mp ! j) > - 10000000"
  shows "\<exists>b. find_best_index mp = int b \<and> movesPicked mp \<le> b \<and> b < numOfMoves mp
           \<and> (\<forall>j. movesPicked mp \<le> j \<and> j < numOfMoves mp
                 \<longrightarrow> score (moves mp ! j) \<le> score (moves mp ! b))"
proof -
  let ?F = "\<lambda>i (bestScore, bestIndex).
            if score (moves mp ! i) > bestScore then (score (moves mp ! i), int i)
            else (bestScore, bestIndex)"
  obtain bs' bi' where
    f: "fold ?F [movesPicked mp..<numOfMoves mp] (- 10000000, - 1) = (bs', bi')"
    by (cases "fold ?F [movesPicked mp..<numOfMoves mp] (- 10000000, - 1)")
  then have fbi: "find_best_index mp = bi'"
    by (simp add: find_best_index_def)
  note r = best_fold [OF f]
  from r have ub: "\<forall>j. movesPicked mp \<le> j \<and> j < numOfMoves mp
                    \<longrightarrow> score (moves mp ! j) \<le> bs'"
    by simp
  from lt good have "score (moves mp ! movesPicked mp) > - 10000000" by simp
  moreover from ub lt have "score (moves mp ! movesPicked mp) \<le> bs'" by simp
  ultimately have "bs' \<noteq> - 10000000" by simp
  with r obtain j where j: "movesPicked mp \<le> j" "j < numOfMoves mp" "bi' = int j"
    "bs' = score (moves mp ! j)"
    by auto
  with ub fbi show ?thesis
    by (intro exI [of _ j]) simp
qed

lemma swap_window:
  assumes "p \<le> b" "b < n" "n \<le> length ms"
  shows "add_mset (ms ! b) (mset (take (n - Suc p) (drop (Suc p) (ms[b := ms ! p]))))
         = mset (take (n - p) (drop p ms))"
proof -
  let ?T = "take (n - Suc p) (drop (Suc p) ms)"
  from assms have p: "p < length ms" and pn: "p < n" by simp_all
  from p have "drop p ms = ms ! p # drop (Suc p) ms"
    by (simp add: Cons_nth_drop_Suc)
  moreover from pn have "n - p = Suc (n - Suc p)" by simp
  ultimately have W: "take (n - p) (drop p ms) = ms ! p # ?T"
    by simp
  show ?thesis
  proof (cases "b = p")
    case True
    then show ?thesis by (simp add: W)
  next
    case False
    with assms have b: "Suc p \<le> b" by simp
    let ?i = "b - Suc p"
    from b assms have i: "?i < length ?T" by simp
    from b assms have Ti: "?T ! ?i = ms ! b" by simp
    from b have "take (n - Suc p) (drop (Suc p) (ms[b := ms ! p])) = ?T[?i := ms ! p]"
      by (simp add: drop_update_swap take_update_swap)
    then have "mset (take (n - Suc p) (drop (Suc p) (ms[b := ms ! p])))
               = add_mset (ms ! p) (mset ?T - {#ms ! b#})"
      using i Ti by (simp add: mset_update)
    moreover from i Ti have "ms ! b \<in># mset ?T"
      by (metis nth_mem set_mset_mset)
    ultimately show ?thesis
      by (simp add: W)
  qed
qed

lemma remaining_swap:
  assumes "movesPicked mp \<le> b" "b < numOfMoves mp" "numOfMoves mp \<le> length (moves mp)"
  shows "mset (remaining mp)
         = add_mset (moves mp ! b)
             (mset (remaining (mp\<lparr>moves := (moves mp)[b := moves mp ! movesPicked mp],
                                   movesPicked := movesPicked mp + 1\<rparr>)))"
  using swap_window [OF assms] by (simp add: remaining_def)

lemma pick_loop_total:
  assumes sel: "sel_ok sel"
  shows "picker_ok mp \<Longrightarrow>
    \<exists>m mp'. pick_loop sel accept mp = Some (Inr (m, mp'))
      \<and> picker_ok mp'
      \<and> numOfMoves mp' = numOfMoves mp
      \<and> mset (remaining mp') \<subseteq># mset (remaining mp)
      \<and> ((accept m
           \<and> filter_mset accept (image_mset move (mset (remaining mp)))
             = add_mset m (filter_mset accept (image_mset move (mset (remaining mp'))))
           \<and> (sel_best sel \<longrightarrow>
                (\<exists>e \<in> set (remaining mp). move e = m
                   \<and> (\<forall>e' \<in> set (remaining mp). accept (move e') \<longrightarrow> score e' \<le> score e))))
          \<or> (filter_mset accept (image_mset move (mset (remaining mp))) = {#}
              \<and> m = MOVE_NONE \<and> remaining mp' = []))"
proof (induction "numOfMoves mp - movesPicked mp" arbitrary: mp)
  case 0
  then have "\<not> movesPicked mp < numOfMoves mp" by simp
  then have run: "pick_loop sel accept mp = Some (Inr (MOVE_NONE, mp))"
    by (subst pick_loop.simps) simp
  from 0 have "remaining mp = []" by (simp add: remaining_def)
  with run "0.prems" show ?case by simp
next
  case (Suc k)
  from Suc.hyps(2) have lt: "movesPicked mp < numOfMoves mp" by simp
  from Suc.prems have len: "numOfMoves mp \<le> length (moves mp)"
    by (simp add: picker_ok_def)
  from sel lt Suc.prems have s1: "int (movesPicked mp) \<le> sel mp"
    and s2: "sel mp < int (numOfMoves mp)"
    by (auto simp: sel_ok_def)
  define b where "b = nat (sel mp)"
  from s1 s2 have b: "movesPicked mp \<le> b" "b < numOfMoves mp" and sb: "sel mp = int b"
    by (simp_all add: b_def)
  let ?mp1 = "mp\<lparr>moves := (moves mp)[b := moves mp ! movesPicked mp],
                  movesPicked := movesPicked mp + 1\<rparr>"
  let ?m = "move (moves mp ! b)"
  note sw = remaining_swap [OF b len]
  have bin: "moves mp ! b \<in> set (remaining mp)"
    using sw by (metis union_single_eq_member set_mset_mset)
  have sub1: "mset (remaining ?mp1) \<subseteq># mset (remaining mp)"
    using sw by simp
  then have "set (remaining ?mp1) \<subseteq> set (remaining mp)"
    by (metis set_mset_mono set_mset_mset)
  with Suc.prems len have ok1: "picker_ok ?mp1"
    by (auto simp: picker_ok_def)
  have step: "pick_loop sel accept mp
              = (if accept ?m then Some (Inr (?m, ?mp1)) else pick_loop sel accept ?mp1)"
    using lt len b sb
    by (subst pick_loop.simps) (simp add: Let_def)
  show ?case
  proof (cases "accept ?m")
    case True
    have flt: "filter_mset accept (image_mset move (mset (remaining mp)))
               = add_mset ?m (filter_mset accept (image_mset move (mset (remaining ?mp1))))"
      using True by (simp add: sw)
    have best: "\<exists>e \<in> set (remaining mp). move e = ?m
                   \<and> (\<forall>e' \<in> set (remaining mp). accept (move e') \<longrightarrow> score e' \<le> score e)"
      if "sel_best sel"
    proof -
      from that lt Suc.prems
      have "\<forall>e \<in> set (remaining mp). score e \<le> score (moves mp ! b)"
        by (auto simp: sel_best_def b_def)
      with bin show ?thesis by blast
    qed
    from True step ok1 sub1 flt best show ?thesis
      by (intro exI [of _ ?m] exI [of _ ?mp1]) simp
  next
    case False
    from Suc.hyps(2) have k: "k = numOfMoves ?mp1 - movesPicked ?mp1" by simp
    from Suc.hyps(1) [OF k ok1] obtain m mp' where
      run: "pick_loop sel accept ?mp1 = Some (Inr (m, mp'))"
      and ok': "picker_ok mp'"
      and n': "numOfMoves mp' = numOfMoves ?mp1"
      and sub': "mset (remaining mp') \<subseteq># mset (remaining ?mp1)"
      and alt: "(accept m
           \<and> filter_mset accept (image_mset move (mset (remaining ?mp1)))
             = add_mset m (filter_mset accept (image_mset move (mset (remaining mp'))))
           \<and> (sel_best sel \<longrightarrow>
                (\<exists>e \<in> set (remaining ?mp1). move e = m
                   \<and> (\<forall>e' \<in> set (remaining ?mp1). accept (move e') \<longrightarrow> score e' \<le> score e))))
          \<or> (filter_mset accept (image_mset move (mset (remaining ?mp1))) = {#}
              \<and> m = MOVE_NONE \<and> remaining mp' = [])"
      by blast
    have flt: "filter_mset accept (image_mset move (mset (remaining mp)))
               = filter_mset accept (image_mset move (mset (remaining ?mp1)))"
      using False by (simp add: sw)
    have mem: "e \<in> set (remaining mp) \<longleftrightarrow> e = moves mp ! b \<or> e \<in> set (remaining ?mp1)" for e
    proof -
      have "e \<in># mset (remaining mp)
            \<longleftrightarrow> e \<in># add_mset (moves mp ! b) (mset (remaining ?mp1))"
        by (simp only: sw)
      then show ?thesis by simp
    qed
    from alt have alt': "(accept m
           \<and> filter_mset accept (image_mset move (mset (remaining mp)))
             = add_mset m (filter_mset accept (image_mset move (mset (remaining mp'))))
           \<and> (sel_best sel \<longrightarrow>
                (\<exists>e \<in> set (remaining mp). move e = m
                   \<and> (\<forall>e' \<in> set (remaining mp). accept (move e') \<longrightarrow> score e' \<le> score e))))
          \<or> (filter_mset accept (image_mset move (mset (remaining mp))) = {#}
              \<and> m = MOVE_NONE \<and> remaining mp' = [])"
    proof
      assume a: "accept m
           \<and> filter_mset accept (image_mset move (mset (remaining ?mp1)))
             = add_mset m (filter_mset accept (image_mset move (mset (remaining mp'))))
           \<and> (sel_best sel \<longrightarrow>
                (\<exists>e \<in> set (remaining ?mp1). move e = m
                   \<and> (\<forall>e' \<in> set (remaining ?mp1). accept (move e') \<longrightarrow> score e' \<le> score e)))"
      have "\<exists>e \<in> set (remaining mp). move e = m
                   \<and> (\<forall>e' \<in> set (remaining mp). accept (move e') \<longrightarrow> score e' \<le> score e)"
        if "sel_best sel"
      proof -
        from a that obtain e where e: "e \<in> set (remaining ?mp1)" "move e = m"
          "\<forall>e' \<in> set (remaining ?mp1). accept (move e') \<longrightarrow> score e' \<le> score e"
          by blast
        have "\<forall>e' \<in> set (remaining mp). accept (move e') \<longrightarrow> score e' \<le> score e"
          using e(3) False by (auto simp: mem)
        with e(1,2) show ?thesis by (auto simp: mem)
      qed
      with a flt show ?thesis by simp
    next
      assume "filter_mset accept (image_mset move (mset (remaining ?mp1))) = {#}
              \<and> m = MOVE_NONE \<and> remaining mp' = []"
      with flt show ?thesis by simp
    qed
    from sub' sub1 have sub: "mset (remaining mp') \<subseteq># mset (remaining mp)"
      by (rule subset_mset.order_trans)
    from False step run have "pick_loop sel accept mp = Some (Inr (m, mp'))" by simp
    with ok' n' sub alt' show ?thesis
      by (intro exI [of _ m] exI [of _ mp']) simp
  qed
qed

lemma picker_ok_scores:
  assumes "picker_ok s"
  shows "\<forall>j. movesPicked s \<le> j \<and> j < numOfMoves s \<longrightarrow> score (moves s ! j) > - 10000000"
proof (intro allI impI)
  fix j assume j: "movesPicked s \<le> j \<and> j < numOfMoves s"
  from assms have len: "numOfMoves s \<le> length (moves s)" by (simp add: picker_ok_def)
  from j have "moves s ! j \<in> set (remaining s)"
    unfolding remaining_def window_set [OF len] by blast
  with assms show "score (moves s ! j) > - 10000000"
    by (simp add: picker_ok_def)
qed

lemma find_best_index_ok: "sel_ok find_best_index"
  unfolding sel_ok_def
proof (intro allI impI)
  fix s assume a: "movesPicked s < numOfMoves s \<and> picker_ok s"
  from find_best_index_max [of s] a picker_ok_scores [of s]
  obtain b where "find_best_index s = int b" "movesPicked s \<le> b" "b < numOfMoves s"
    by blast
  then show "int (movesPicked s) \<le> find_best_index s \<and> find_best_index s < int (numOfMoves s)"
    by simp
qed

lemma find_best_index_best: "sel_best find_best_index"
  unfolding sel_best_def
proof (intro allI impI ballI)
  fix s e assume a: "movesPicked s < numOfMoves s \<and> picker_ok s" and e: "e \<in> set (remaining s)"
  from a have len: "numOfMoves s \<le> length (moves s)" by (simp add: picker_ok_def)
  from find_best_index_max [of s] a picker_ok_scores [of s]
  obtain b where b: "find_best_index s = int b"
    "\<forall>j. movesPicked s \<le> j \<and> j < numOfMoves s \<longrightarrow> score (moves s ! j) \<le> score (moves s ! b)"
    by blast
  from e obtain j where "movesPicked s \<le> j" "j < numOfMoves s" "e = moves s ! j"
    unfolding remaining_def window_set [OF len] by blast
  with b show "score e \<le> score (moves s ! nat (find_best_index s))"
    by simp
qed

lemma qcaptures_rule_ok:
  "sel_ok (\<lambda>s. if movesPicked s < 4 then find_best_index s else int (movesPicked s))"
  using find_best_index_ok by (auto simp: sel_ok_def)

lemma noncaptures_rule_ok:
  "sel_ok (\<lambda>s. if pvNode s \<or> movesPicked s < 12 then find_best_index s else int (movesPicked s))"
  using find_best_index_ok by (auto simp: sel_ok_def)

lemma drain_pick_loop:
  assumes sel: "sel_ok sel"
    and f: "\<And>s. I s \<Longrightarrow> f s = pick_loop sel accept s"
    and keep: "\<And>s ms k. I s \<Longrightarrow> I (s\<lparr>moves := ms, movesPicked := k\<rparr>)"
  shows "I mp \<Longrightarrow> picker_ok mp
    \<Longrightarrow> \<forall>e \<in> set (remaining mp). accept (move e) \<longrightarrow> move e \<noteq> MOVE_NONE
    \<Longrightarrow> \<exists>ys. drain f (Suc (size (filter_mset accept (image_mset move (mset (remaining mp)))))) mp
              = Some ys
          \<and> mset ys = filter_mset accept (image_mset move (mset (remaining mp)))
          \<and> (sel_best sel \<longrightarrow> ys \<noteq> [] \<longrightarrow>
               (\<exists>e \<in> set (remaining mp). move e = hd ys
                  \<and> (\<forall>e' \<in> set (remaining mp). accept (move e') \<longrightarrow> score e' \<le> score e)))"
proof (induction "size (filter_mset accept (image_mset move (mset (remaining mp))))"
         arbitrary: mp)
  case 0
  from pick_loop_total [OF sel "0.prems"(2), of accept] obtain m mp' where
    run: "pick_loop sel accept mp = Some (Inr (m, mp'))"
    and alt: "(accept m
           \<and> filter_mset accept (image_mset move (mset (remaining mp)))
             = add_mset m (filter_mset accept (image_mset move (mset (remaining mp')))))
          \<or> (filter_mset accept (image_mset move (mset (remaining mp))) = {#}
              \<and> m = MOVE_NONE \<and> remaining mp' = [])"
    by blast
  from "0.hyps" have empty: "filter_mset accept (image_mset move (mset (remaining mp))) = {#}"
    by simp
  with alt have "m = MOVE_NONE" by auto
  with run f [OF "0.prems"(1)] empty show ?case
    by simp
next
  case (Suc k)
  let ?A = "\<lambda>s. filter_mset accept (image_mset move (mset (remaining s)))"
  from pick_loop_total [OF sel Suc.prems(2), of accept] obtain m mp' where
    run: "pick_loop sel accept mp = Some (Inr (m, mp'))"
    and ok': "picker_ok mp'"
    and sub: "mset (remaining mp') \<subseteq># mset (remaining mp)"
    and alt: "(accept m
           \<and> ?A mp = add_mset m (?A mp')
           \<and> (sel_best sel \<longrightarrow>
                (\<exists>e \<in> set (remaining mp). move e = m
                   \<and> (\<forall>e' \<in> set (remaining mp). accept (move e') \<longrightarrow> score e' \<le> score e))))
          \<or> (?A mp = {#} \<and> m = MOVE_NONE \<and> remaining mp' = [])"
    by blast
  have "?A mp \<noteq> {#}"
  proof
    assume "?A mp = {#}"
    then have "size (?A mp) = 0" by (simp only: size_empty)
    with Suc.hyps(2) show False by simp
  qed
  with alt have acc: "accept m" and A: "?A mp = add_mset m (?A mp')"
    and best: "sel_best sel \<longrightarrow>
                (\<exists>e \<in> set (remaining mp). move e = m
                   \<and> (\<forall>e' \<in> set (remaining mp). accept (move e') \<longrightarrow> score e' \<le> score e))"
    by auto
  from A have "m \<in># ?A mp" by simp
  then obtain e where "e \<in> set (remaining mp)" "move e = m" by auto
  with acc Suc.prems(3) have nn: "m \<noteq> MOVE_NONE" by auto
  from A Suc.hyps(2) have k: "k = size (?A mp')" by simp
  from pick_loop_frame [OF run]
  have fr: "mp' = mp\<lparr>moves := moves mp', movesPicked := movesPicked mp'\<rparr>" by simp
  have I': "I mp'"
    by (subst fr) (rule keep [OF Suc.prems(1)])
  from sub have "set (remaining mp') \<subseteq> set (remaining mp)"
    by (metis set_mset_mono set_mset_mset)
  with Suc.prems(3)
  have nn': "\<forall>e \<in> set (remaining mp'). accept (move e) \<longrightarrow> move e \<noteq> MOVE_NONE"
    by auto
  from Suc.hyps(1) [OF k I' ok' nn'] obtain ys where
    d: "drain f (Suc (size (?A mp'))) mp' = Some ys" and ms: "mset ys = ?A mp'"
    by blast
  from A have sz: "size (?A mp) = Suc (size (?A mp'))" by simp
  have "drain f (Suc (size (?A mp))) mp = Some (m # ys)"
    using run f [OF Suc.prems(1)] nn d by (simp add: sz)
  moreover have "mset (m # ys) = ?A mp"
    using ms A by simp
  ultimately show ?case
    using best by (intro exI [of _ "m # ys"]) simp
qed

lemma score_fold:
  "n \<le> length ms \<Longrightarrow>
   fold (\<lambda>i ms. ms[i := (ms ! i)\<lparr>score := f (move (ms ! i))\<rparr>]) [0..<n] ms
   = map (\<lambda>e. e\<lparr>score := f (move e)\<rparr>) (take n ms) @ drop n ms"
proof (induction n)
  case 0
  then show ?case by simp
next
  case (Suc n)
  let ?G = "\<lambda>i ms. ms[i := (ms ! i)\<lparr>score := f (move (ms ! i))\<rparr>]"
  let ?h = "\<lambda>e. e\<lparr>score := f (move e)\<rparr>"
  from Suc.prems have n: "n < length ms" by simp
  with Suc.IH have IH: "fold ?G [0..<n] ms = map ?h (take n ms) @ drop n ms" by simp
  have len: "length (map ?h (take n ms)) = n" using n by simp
  have "fold ?G [0..<Suc n] ms = ?G n (fold ?G [0..<n] ms)" by simp
  also have "\<dots> = map ?h (take n ms) @ (drop n ms)[0 := ?h (drop n ms ! 0)]"
    using n by (simp only: IH) (simp add: list_update_append nth_append len min_absorb2)
  also have "drop n ms = ms ! n # drop (Suc n) ms"
    using n by (simp add: Cons_nth_drop_Suc)
  also have "map ?h (take n ms) @ (ms ! n # drop (Suc n) ms)[0 := ?h ((ms ! n # drop (Suc n) ms) ! 0)]
             = map ?h (take (Suc n) ms) @ drop (Suc n) ms"
    using n by (simp add: take_Suc_conv_app_nth)
  finally show ?case .
qed

lemma store_moves_take:
  "length ms \<le> length old \<Longrightarrow>
   take (length ms) (store_moves ms old) = map (\<lambda>(m, c). c\<lparr>move := m\<rparr>) (zip ms old)"
  by (simp add: store_moves_def)

lemma store_moves_length:
  "length ms \<le> length old \<Longrightarrow> length (store_moves ms old) = length old"
  by (simp add: store_moves_def)

lemma zip_scored:
  "length ms \<le> length old \<Longrightarrow>
   map (\<lambda>e. e\<lparr>score := f (move e)\<rparr>) (map (\<lambda>(m, c). c\<lparr>move := m\<rparr>) (zip ms old))
   = map (\<lambda>m. \<lparr>move = m, score = f m\<rparr>) ms"
proof (induction ms arbitrary: old)
  case Nil
  then show ?case by simp
next
  case (Cons m ms)
  then obtain c cs where old: "old = c # cs" by (cases old) auto
  have "c\<lparr>move := m, score := f m\<rparr> = \<lparr>move = m, score = f m\<rparr>"
    by (cases c) simp
  with Cons old show ?case by simp
qed

lemma scored_bucket:
  assumes "length ms \<le> length (moves mp)"
  shows "remaining ((score_each f (generate ms mp))\<lparr>movesPicked := 0\<rparr>)
         = map (\<lambda>m. \<lparr>move = m, score = f m\<rparr>) ms"
    and "numOfMoves ((score_each f (generate ms mp))\<lparr>movesPicked := 0\<rparr>) = length ms"
    and "length (moves ((score_each f (generate ms mp))\<lparr>movesPicked := 0\<rparr>)) = length (moves mp)"
proof -
  let ?st = "store_moves ms (moves mp)"
  let ?h = "\<lambda>e. e\<lparr>score := f (move e)\<rparr>"
  from assms have len: "length ms \<le> length ?st" by (simp add: store_moves_length)
  have mv: "moves (score_each f (generate ms mp))
            = map ?h (take (length ms) ?st) @ drop (length ms) ?st"
    using score_fold [OF len, of f] by (simp add: score_each_def generate_def)
  have "take (length ms) (map ?h (take (length ms) ?st) @ drop (length ms) ?st)
        = map ?h (take (length ms) ?st)"
    using len by simp
  also have "\<dots> = map ?h (map (\<lambda>(m, c). c\<lparr>move := m\<rparr>) (zip ms (moves mp)))"
    using assms by (simp add: store_moves_take)
  also have "\<dots> = map (\<lambda>m. \<lparr>move = m, score = f m\<rparr>) ms"
    using assms by (rule zip_scored)
  finally show "remaining ((score_each f (generate ms mp))\<lparr>movesPicked := 0\<rparr>)
         = map (\<lambda>m. \<lparr>move = m, score = f m\<rparr>) ms"
    by (simp add: remaining_def mv) (simp add: score_each_def generate_def)
  show "numOfMoves ((score_each f (generate ms mp))\<lparr>movesPicked := 0\<rparr>) = length ms"
    by (simp add: score_each_def generate_def)
  show "length (moves ((score_each f (generate ms mp))\<lparr>movesPicked := 0\<rparr>)) = length (moves mp)"
    using len assms by (simp add: mv store_moves_length)
qed

lemma qcaptures_pick:
  assumes "phase_at g (phaseIndex mp) = Inr PH_QCAPTURES" "\<not> is_check (pos mp)"
  shows "pick_move_from_list g mp
         = pick_loop (\<lambda>s. if movesPicked s < 4 then find_best_index s else int (movesPicked s))
             (\<lambda>m. pl_move_is_legal (pos mp) m (pinned mp)) mp"
  using assms by (simp add: pick_move_from_list_def)

lemma qcaptures_front:
  assumes ph: "phase_at g (phaseIndex mp) = Inr PH_QCAPTURES" and chk: "\<not> is_check (pos mp)"
    and a: "4 \<le> movesPicked mp" "movesPicked mp < numOfMoves mp"
      "numOfMoves mp \<le> length (moves mp)"
  shows "pick_move_from_list g mp
         = (let m = move (moves mp ! movesPicked mp);
                mp' = mp\<lparr>movesPicked := movesPicked mp + 1\<rparr>
            in if pl_move_is_legal (pos mp) m (pinned mp) then Some (Inr (m, mp'))
               else pick_move_from_list g mp')"
proof -
  let ?mp' = "mp\<lparr>movesPicked := Suc (movesPicked mp)\<rparr>"
  let ?sel = "\<lambda>s. if movesPicked s < 4 then find_best_index s else int (movesPicked s)"
  let ?legal = "\<lambda>m. pl_move_is_legal (pos mp) m (pinned mp)"
  have nxt: "pick_move_from_list g ?mp' = pick_loop ?sel ?legal ?mp'"
    using qcaptures_pick [of g ?mp'] ph chk by simp
  have "pick_loop ?sel ?legal mp
        = (if ?legal (move (moves mp ! movesPicked mp))
           then Some (Inr (move (moves mp ! movesPicked mp), ?mp'))
           else pick_loop ?sel ?legal ?mp')"
    using a by (subst pick_loop.simps) (simp add: Let_def)
  then show ?thesis
    by (simp add: qcaptures_pick [OF ph chk] nxt Let_def)
qed

lemma qcaptures_best:
  assumes ph: "phase_at g (phaseIndex mp) = Inr PH_QCAPTURES" and chk: "\<not> is_check (pos mp)"
    and a: "movesPicked mp < 4" "movesPicked mp < numOfMoves mp" "picker_ok mp"
  shows "\<exists>b. movesPicked mp \<le> b \<and> b < numOfMoves mp
           \<and> (\<forall>j. movesPicked mp \<le> j \<and> j < numOfMoves mp
                 \<longrightarrow> score (moves mp ! j) \<le> score (moves mp ! b))
           \<and> pick_move_from_list g mp
             = (let m = move (moves mp ! b);
                    mp' = mp\<lparr>moves := (moves mp)[b := moves mp ! movesPicked mp],
                             movesPicked := movesPicked mp + 1\<rparr>
                in if pl_move_is_legal (pos mp) m (pinned mp) then Some (Inr (m, mp'))
                   else pick_move_from_list g mp')"
proof -
  from find_best_index_max [OF a(2) picker_ok_scores [OF a(3)]] obtain b where
    b: "find_best_index mp = int b" "movesPicked mp \<le> b" "b < numOfMoves mp"
      "\<forall>j. movesPicked mp \<le> j \<and> j < numOfMoves mp
          \<longrightarrow> score (moves mp ! j) \<le> score (moves mp ! b)"
    by blast
  let ?mp' = "mp\<lparr>moves := (moves mp)[b := moves mp ! movesPicked mp],
                  movesPicked := Suc (movesPicked mp)\<rparr>"
  let ?sel = "\<lambda>s. if movesPicked s < 4 then find_best_index s else int (movesPicked s)"
  let ?legal = "\<lambda>m. pl_move_is_legal (pos mp) m (pinned mp)"
  from a(3) have len: "numOfMoves mp \<le> length (moves mp)" by (simp add: picker_ok_def)
  have nxt: "pick_move_from_list g ?mp' = pick_loop ?sel ?legal ?mp'"
    using qcaptures_pick [of g ?mp'] ph chk by simp
  have "pick_loop ?sel ?legal mp
        = (if ?legal (move (moves mp ! b)) then Some (Inr (move (moves mp ! b), ?mp'))
           else pick_loop ?sel ?legal ?mp')"
    using a b len by (subst pick_loop.simps) (simp add: Let_def)
  then have "pick_move_from_list g mp
             = (let m = move (moves mp ! b);
                    mp' = mp\<lparr>moves := (moves mp)[b := moves mp ! movesPicked mp],
                             movesPicked := movesPicked mp + 1\<rparr>
                in if pl_move_is_legal (pos mp) m (pinned mp) then Some (Inr (m, mp'))
                   else pick_move_from_list g mp')"
    by (simp add: qcaptures_pick [OF ph chk] nxt Let_def)
  with b show ?thesis by blast
qed

lemma qcaptures_drain:
  assumes ph: "phase_at g (phaseIndex mp) = Inr PH_QCAPTURES" and chk: "\<not> is_check (pos mp)"
    and fit: "length (generate_captures x (pos mp)) \<le> length (moves mp)"
    and good: "\<forall>m \<in> set (generate_captures x (pos mp)).
                 mvv_lva x (pos mp) m > - 10000000 \<and> m \<noteq> MOVE_NONE"
  shows "\<exists>mp1 ys. next_phase x PH_QCAPTURES mp = Break mp1
           \<and> remaining mp1
             = map (\<lambda>m. \<lparr>move = m, score = mvv_lva x (pos mp) m\<rparr>) (generate_captures x (pos mp))
           \<and> drain (pick_move_from_list g)
               (Suc (length (filter (\<lambda>m. pl_move_is_legal (pos mp) m (pinned mp))
                               (generate_captures x (pos mp))))) mp1 = Some ys
           \<and> mset ys = mset (filter (\<lambda>m. pl_move_is_legal (pos mp) m (pinned mp))
                               (generate_captures x (pos mp)))"
proof -
  let ?caps = "generate_captures x (pos mp)"
  let ?legal = "\<lambda>m. pl_move_is_legal (pos mp) m (pinned mp)"
  let ?sel = "\<lambda>s. if movesPicked s < 4 then find_best_index s else int (movesPicked s)"
  define mp1 where "mp1 = (score_each (mvv_lva x (pos mp)) (generate ?caps mp))\<lparr>movesPicked := 0\<rparr>"
  note sb = scored_bucket [OF fit, of "mvv_lva x (pos mp)", folded mp1_def]
  have np: "next_phase x PH_QCAPTURES mp = Break mp1"
    by (simp add: mp1_def score_qcaptures_def generate_def score_each_def)
  have fr: "pos mp1 = pos mp" "pinned mp1 = pinned mp" "phaseIndex mp1 = phaseIndex mp"
    by (simp_all add: mp1_def generate_def score_each_def)
  have ok: "picker_ok mp1"
    using good fit by (auto simp: picker_ok_def sb)
  define I where "I = (\<lambda>s :: MovePicker.
                         pos s = pos mp \<and> pinned s = pinned mp \<and> phaseIndex s = phaseIndex mp)"
  have f: "pick_move_from_list g s = pick_loop ?sel ?legal s" if "I s" for s
    using that qcaptures_pick [of g s] ph chk by (simp add: I_def)
  have keep: "I (s\<lparr>moves := ms, movesPicked := k\<rparr>)" if "I s" for s ms k
    using that by (simp add: I_def)
  have I1: "I mp1" by (simp add: I_def fr)
  have nn: "\<forall>e \<in> set (remaining mp1). ?legal (move e) \<longrightarrow> move e \<noteq> MOVE_NONE"
    using good by (auto simp: sb)
  have A: "filter_mset ?legal (image_mset move (mset (remaining mp1))) = mset (filter ?legal ?caps)"
    by (simp add: sb(1) comp_def flip: mset_map mset_filter)
  from drain_pick_loop [of ?sel I "pick_move_from_list g" ?legal mp1,
      OF qcaptures_rule_ok f keep I1 ok nn]
  obtain ys where
    "drain (pick_move_from_list g)
       (Suc (size (filter_mset ?legal (image_mset move (mset (remaining mp1)))))) mp1 = Some ys"
    "mset ys = filter_mset ?legal (image_mset move (mset (remaining mp1)))"
    by blast
  moreover have "size (filter_mset ?legal (image_mset move (mset (remaining mp1))))
                 = length (filter ?legal ?caps)"
    by (simp only: A size_mset)
  ultimately have "drain (pick_move_from_list g) (Suc (length (filter ?legal ?caps))) mp1 = Some ys"
    "mset ys = mset (filter ?legal ?caps)"
    by (simp_all only: A)
  with np sb(1) show ?thesis by blast
qed

section \<open>The captures of the quiescence search\<close>

text \<open>
  C7. In the phase \<^verbatim>\<open>PH_QCAPTURES\<close> (the position not in check): while fewer than 4 cells
  have been drawn, the cell drawn has a highest score of the part of the bucket not drawn
  yet; from the fifth draw on it is the cell at \<^verbatim>\<open>movesPicked\<close>; in both cases the move is
  yielded when it is legal and the loop goes on otherwise, and the TT move plays no part.
  When the phase is entered with captures that fit the array, have scores above
  \<open>-10000000\<close> and are not the sentinel, the bucket holds the generated captures with
  their MVV/LVA scores, and the calls that follow yield exactly the legal ones among them,
  each once: a legal capture that is the TT move is among them.
\<close>

theorem qcaptures_phase:
  assumes ph: "phase_at g (phaseIndex mp) = Inr PH_QCAPTURES" and chk: "\<not> is_check (pos mp)"
  shows
    "(movesPicked mp < 4 \<and> movesPicked mp < numOfMoves mp \<and> picker_ok mp \<longrightarrow>
        (\<exists>b. movesPicked mp \<le> b \<and> b < numOfMoves mp
           \<and> (\<forall>j. movesPicked mp \<le> j \<and> j < numOfMoves mp
                 \<longrightarrow> score (moves mp ! j) \<le> score (moves mp ! b))
           \<and> pick_move_from_list g mp
             = (let m = move (moves mp ! b);
                    mp' = mp\<lparr>moves := (moves mp)[b := moves mp ! movesPicked mp],
                             movesPicked := movesPicked mp + 1\<rparr>
                in if pl_move_is_legal (pos mp) m (pinned mp) then Some (Inr (m, mp'))
                   else pick_move_from_list g mp')))
   \<and> (4 \<le> movesPicked mp \<and> movesPicked mp < numOfMoves mp
        \<and> numOfMoves mp \<le> length (moves mp) \<longrightarrow>
        pick_move_from_list g mp
         = (let m = move (moves mp ! movesPicked mp);
                mp' = mp\<lparr>movesPicked := movesPicked mp + 1\<rparr>
            in if pl_move_is_legal (pos mp) m (pinned mp) then Some (Inr (m, mp'))
               else pick_move_from_list g mp'))
   \<and> (length (generate_captures x (pos mp)) \<le> length (moves mp)
        \<and> (\<forall>m \<in> set (generate_captures x (pos mp)).
              mvv_lva x (pos mp) m > - 10000000 \<and> m \<noteq> MOVE_NONE) \<longrightarrow>
        (\<exists>mp1 ys. next_phase x PH_QCAPTURES mp = Break mp1
           \<and> remaining mp1
             = map (\<lambda>m. \<lparr>move = m, score = mvv_lva x (pos mp) m\<rparr>) (generate_captures x (pos mp))
           \<and> drain (pick_move_from_list g)
               (Suc (length (filter (\<lambda>m. pl_move_is_legal (pos mp) m (pinned mp))
                               (generate_captures x (pos mp))))) mp1 = Some ys
           \<and> mset ys = mset (filter (\<lambda>m. pl_move_is_legal (pos mp) m (pinned mp))
                               (generate_captures x (pos mp)))
           \<and> (ttMove mp \<in> set (generate_captures x (pos mp))
                \<and> pl_move_is_legal (pos mp) (ttMove mp) (pinned mp) \<longrightarrow> ttMove mp \<in> set ys)))"
proof (intro conjI impI)
  assume "movesPicked mp < 4 \<and> movesPicked mp < numOfMoves mp \<and> picker_ok mp"
  then show "\<exists>b. movesPicked mp \<le> b \<and> b < numOfMoves mp
           \<and> (\<forall>j. movesPicked mp \<le> j \<and> j < numOfMoves mp
                 \<longrightarrow> score (moves mp ! j) \<le> score (moves mp ! b))
           \<and> pick_move_from_list g mp
             = (let m = move (moves mp ! b);
                    mp' = mp\<lparr>moves := (moves mp)[b := moves mp ! movesPicked mp],
                             movesPicked := movesPicked mp + 1\<rparr>
                in if pl_move_is_legal (pos mp) m (pinned mp) then Some (Inr (m, mp'))
                   else pick_move_from_list g mp')"
    using qcaptures_best [OF ph chk] by blast
next
  assume "4 \<le> movesPicked mp \<and> movesPicked mp < numOfMoves mp
        \<and> numOfMoves mp \<le> length (moves mp)"
  then show "pick_move_from_list g mp
         = (let m = move (moves mp ! movesPicked mp);
                mp' = mp\<lparr>movesPicked := movesPicked mp + 1\<rparr>
            in if pl_move_is_legal (pos mp) m (pinned mp) then Some (Inr (m, mp'))
               else pick_move_from_list g mp')"
    using qcaptures_front [OF ph chk] by blast
next
  let ?caps = "generate_captures x (pos mp)"
  let ?legal = "\<lambda>m. pl_move_is_legal (pos mp) m (pinned mp)"
  assume a: "length ?caps \<le> length (moves mp)
        \<and> (\<forall>m \<in> set ?caps. mvv_lva x (pos mp) m > - 10000000 \<and> m \<noteq> MOVE_NONE)"
  then have fit: "length ?caps \<le> length (moves mp)"
    and good: "\<forall>m \<in> set ?caps. mvv_lva x (pos mp) m > - 10000000 \<and> m \<noteq> MOVE_NONE"
    by simp_all
  from qcaptures_drain [OF ph chk fit good] obtain mp1 ys where
    r: "next_phase x PH_QCAPTURES mp = Break mp1"
      "remaining mp1 = map (\<lambda>m. \<lparr>move = m, score = mvv_lva x (pos mp) m\<rparr>) ?caps"
      "drain (pick_move_from_list g) (Suc (length (filter ?legal ?caps))) mp1 = Some ys"
      "mset ys = mset (filter ?legal ?caps)"
    by blast
  from r(4) have "set ys = set (filter ?legal ?caps)"
    by (rule mset_eq_setD)
  then have "ttMove mp \<in> set ?caps \<and> ?legal (ttMove mp) \<longrightarrow> ttMove mp \<in> set ys"
    by simp
  with r show "\<exists>mp1 ys. next_phase x PH_QCAPTURES mp = Break mp1
           \<and> remaining mp1 = map (\<lambda>m. \<lparr>move = m, score = mvv_lva x (pos mp) m\<rparr>) ?caps
           \<and> drain (pick_move_from_list g) (Suc (length (filter ?legal ?caps))) mp1 = Some ys
           \<and> mset ys = mset (filter ?legal ?caps)
           \<and> (ttMove mp \<in> set ?caps \<and> ?legal (ttMove mp) \<longrightarrow> ttMove mp \<in> set ys)"
    by blast
qed

theorem qcaptures_phase_witness:
  "(let g = init_phase_table fresh_globals;
        mp = blank_picker\<lparr>phaseIndex := 8, ttMove := 2\<rparr>
    in phase_at g (phaseIndex mp) = Inr PH_QCAPTURES
     \<and> generate_captures example_ext (pos mp) = [1, 2, 3]
     \<and> (\<exists>mp1 ys. next_phase example_ext PH_QCAPTURES mp = Break mp1
           \<and> drain (pick_move_from_list g) 4 mp1 = Some ys
           \<and> mset ys = mset [1, 2, 3]
           \<and> ttMove mp \<in> set ys)
     \<and> (\<exists>b<3. pick_move_from_list g scored_picker
           = Some (Inr (move (moves scored_picker ! b),
                scored_picker\<lparr>moves := (moves scored_picker)[b := moves scored_picker ! 0],
                               movesPicked := 1\<rparr>))
           \<and> (\<forall>j<3. score (moves scored_picker ! j) \<le> score (moves scored_picker ! b)))
     \<and> pick_move_from_list g (blank_picker\<lparr>phaseIndex := 8, movesPicked := 4, numOfMoves := 5\<rparr>)
         = Some (Inr (0, blank_picker\<lparr>phaseIndex := 8, movesPicked := 5, numOfMoves := 5\<rparr>)))"
proof -
  let ?g = "init_phase_table fresh_globals"
  let ?mp = "blank_picker\<lparr>phaseIndex := 8, ttMove := 2\<rparr>"
  let ?s2 = "blank_picker\<lparr>phaseIndex := 8, movesPicked := 4, numOfMoves := 5\<rparr>"
  have len: "length (PhaseTable fresh_globals) = 32"
    by (simp add: fresh_globals_def)
  have ph: "phase_at ?g (phaseIndex ?mp) = Inr PH_QCAPTURES"
    "phase_at ?g (phaseIndex scored_picker) = Inr PH_QCAPTURES"
    "phase_at ?g (phaseIndex ?s2) = Inr PH_QCAPTURES"
    by (simp_all add: init_phase_table_at [OF len] scored_picker_def)
  have chk: "\<not> is_check (pos ?mp)" "\<not> is_check (pos scored_picker)" "\<not> is_check (pos ?s2)"
    by (simp_all add: blank_picker_def example_position_def scored_picker_def)
  have caps: "generate_captures example_ext (pos ?mp) = [1, 2, 3]"
    by (simp add: example_ext_def)
  have legal: "pl_move_is_legal (pos s) m (pinned s)"
    if "pos s = example_position False" for s :: MovePicker and m
    using that by (simp add: example_position_def)
  have legal': "pl_move_is_legal (example_position False) m b" for m b
    by (simp add: example_position_def)
  have pos: "pos ?mp = example_position False" "pos scored_picker = example_position False"
    "pos ?s2 = example_position False"
    by (simp_all add: blank_picker_def scored_picker_def)
  have hyp3: "length (generate_captures example_ext (pos ?mp)) \<le> length (moves ?mp)
        \<and> (\<forall>m \<in> set (generate_captures example_ext (pos ?mp)).
              mvv_lva example_ext (pos ?mp) m > - 10000000 \<and> m \<noteq> MOVE_NONE)"
    by (simp add: caps) (simp add: blank_picker_def mvv_lva_def example_ext_def
          example_position_def MOVE_NONE_def)
  have flt: "filter (\<lambda>m. pl_move_is_legal (pos ?mp) m (pinned ?mp))
               (generate_captures example_ext (pos ?mp)) = [1, 2, 3]"
    by (simp add: blank_picker_def example_ext_def example_position_def)
  have four: "Suc (length [1, 2, 3 :: int]) = 4" by simp
  from qcaptures_phase [OF ph(1) chk(1), of example_ext] hyp3
  obtain mp1 ys where np: "next_phase example_ext PH_QCAPTURES ?mp = Break mp1"
    and d: "drain (pick_move_from_list ?g)
       (Suc (length (filter (\<lambda>m. pl_move_is_legal (pos ?mp) m (pinned ?mp))
                       (generate_captures example_ext (pos ?mp))))) mp1 = Some ys"
    and m: "mset ys = mset (filter (\<lambda>m. pl_move_is_legal (pos ?mp) m (pinned ?mp))
                       (generate_captures example_ext (pos ?mp)))"
    by blast
  from d have d4: "drain (pick_move_from_list ?g) 4 mp1 = Some ys"
    by (simp only: flt four)
  from m have m3: "mset ys = mset [1, 2, 3]"
    by (simp only: flt)
  then have "set ys = set [1, 2, 3]" by (rule mset_eq_setD)
  then have tt: "ttMove ?mp \<in> set ys" by simp
  from np d4 m3 tt have part3: "\<exists>mp1 ys. next_phase example_ext PH_QCAPTURES ?mp = Break mp1
           \<and> drain (pick_move_from_list ?g) 4 mp1 = Some ys
           \<and> mset ys = mset [1, 2, 3]
           \<and> ttMove ?mp \<in> set ys"
    by blast
  have ok: "picker_ok scored_picker"
    by (simp add: picker_ok_def remaining_def scored_picker_def blank_picker_def)
  have hyp1: "movesPicked scored_picker < 4 \<and> movesPicked scored_picker < numOfMoves scored_picker
              \<and> picker_ok scored_picker"
    using ok by (simp add: scored_picker_def blank_picker_def)
  from qcaptures_phase [OF ph(2) chk(2), of example_ext] hyp1
  obtain b where b: "b < numOfMoves scored_picker"
    "\<forall>j. movesPicked scored_picker \<le> j \<and> j < numOfMoves scored_picker
        \<longrightarrow> score (moves scored_picker ! j) \<le> score (moves scored_picker ! b)"
    "pick_move_from_list ?g scored_picker
       = (let m = move (moves scored_picker ! b);
              mp' = scored_picker\<lparr>moves := (moves scored_picker)
                                     [b := moves scored_picker ! movesPicked scored_picker],
                       movesPicked := movesPicked scored_picker + 1\<rparr>
          in if pl_move_is_legal (pos scored_picker) m (pinned scored_picker)
             then Some (Inr (m, mp')) else pick_move_from_list ?g mp')"
    by blast
  have n3: "numOfMoves scored_picker = 3" "movesPicked scored_picker = 0"
    by (simp_all add: scored_picker_def blank_picker_def)
  from b have part1: "\<exists>b<3. pick_move_from_list ?g scored_picker
           = Some (Inr (move (moves scored_picker ! b),
                scored_picker\<lparr>moves := (moves scored_picker)[b := moves scored_picker ! 0],
                               movesPicked := 1\<rparr>))
           \<and> (\<forall>j<3. score (moves scored_picker ! j) \<le> score (moves scored_picker ! b))"
    by (intro exI [of _ b]) (simp add: legal [OF pos(2)] n3 Let_def)
  have hyp2: "4 \<le> movesPicked ?s2 \<and> movesPicked ?s2 < numOfMoves ?s2
              \<and> numOfMoves ?s2 \<le> length (moves ?s2)"
    by (simp add: blank_picker_def)
  from qcaptures_phase [OF ph(3) chk(3), of example_ext] hyp2
  have "pick_move_from_list ?g ?s2
         = (let m = move (moves ?s2 ! movesPicked ?s2);
                mp' = ?s2\<lparr>movesPicked := movesPicked ?s2 + 1\<rparr>
            in if pl_move_is_legal (pos ?s2) m (pinned ?s2) then Some (Inr (m, mp'))
               else pick_move_from_list ?g mp')"
    by blast
  then have part2: "pick_move_from_list ?g ?s2
         = Some (Inr (0, blank_picker\<lparr>phaseIndex := 8, movesPicked := 5, numOfMoves := 5\<rparr>))"
    by (simp add: legal' Let_def blank_picker_def)
  from ph(1) caps part1 part2 part3 show ?thesis
    by (simp add: Let_def)
qed

section \<open>Captures by their exchange value\<close>

lemma bad_compaction:
  assumes "i < n" "n \<le> length ms"
  shows "mset (take (n - 1 - i) (drop i ((ms[i := e'])[i := (ms[i := e']) ! (n - 1)])))
         = mset (take (n - Suc i) (drop (Suc i) ms))"
proof (cases "i = n - 1")
  case True
  with assms show ?thesis by simp
next
  case False
  with assms have lt: "i < n - 1" by simp
  then have ne: "n - 1 \<noteq> i" by simp
  from assms lt have i: "i < length ms" by simp
  have upd: "(ms[i := e'])[i := (ms[i := e']) ! (n - 1)] = ms[i := ms ! (n - 1)]"
    using ne by simp
  have d: "drop i (ms[i := ms ! (n - 1)]) = ms ! (n - 1) # drop (Suc i) ms"
  proof -
    have "drop i (ms[i := ms ! (n - 1)])
          = (ms[i := ms ! (n - 1)]) ! i # drop (Suc i) (ms[i := ms ! (n - 1)])"
      by (rule Cons_nth_drop_Suc [symmetric]) (simp add: i)
    moreover have "(ms[i := ms ! (n - 1)]) ! i = ms ! (n - 1)"
      using i by simp
    moreover have "drop (Suc i) (ms[i := ms ! (n - 1)]) = drop (Suc i) ms"
      by simp
    ultimately show ?thesis by (simp only:)
  qed
  from lt have k: "n - 1 - i = Suc (n - 2 - i)" by simp
  from lt have k2: "n - Suc i = Suc (n - 2 - i)" by simp
  have len: "n - 2 - i < length (drop (Suc i) ms)"
    using assms lt by simp
  have "Suc i + (n - 2 - i) = n - 1"
    using lt by simp
  moreover have "drop (Suc i) ms ! (n - 2 - i) = ms ! (Suc i + (n - 2 - i))"
    using assms lt by (intro nth_drop) simp
  ultimately have last: "drop (Suc i) ms ! (n - 2 - i) = ms ! (n - 1)"
    by (simp only:)
  have "take (n - 1 - i) (drop i (ms[i := ms ! (n - 1)]))
        = ms ! (n - 1) # take (n - 2 - i) (drop (Suc i) ms)"
    by (simp only: d k take_Suc_Cons)
  moreover have "take (n - Suc i) (drop (Suc i) ms)
        = take (n - 2 - i) (drop (Suc i) ms) @ [ms ! (n - 1)]"
    using len last by (simp only: k2 take_Suc_conv_app_nth)
  ultimately show ?thesis
    by (simp only: upd mset.simps mset_append) simp
qed

lemma score_captures_loop_partition:
  fixes x :: Ext and p :: Position
  defines "bad \<equiv> \<lambda>e. see p (move e) < 0"
    and "good \<equiv> \<lambda>e. see p (move e) \<ge> 0"
    and "sg \<equiv> \<lambda>e. e\<lparr>score := mvv_lva x p (move e)\<rparr>"
    and "sb \<equiv> \<lambda>e. e\<lparr>score := see p (move e)\<rparr>"
  shows "pos mp = p \<Longrightarrow> i \<le> numOfMoves mp \<Longrightarrow> numOfMoves mp \<le> length (moves mp)
    \<Longrightarrow> numOfBadCaptures mp + size (filter_mset bad (mset (unscored i mp))) \<le> 63
    \<Longrightarrow> numOfBadCaptures mp + size (filter_mset bad (mset (unscored i mp)))
          \<le> length (badCaptures mp)
    \<Longrightarrow> \<exists>mp'. score_captures_loop x i mp = Inr mp'
          \<and> mp' = mp\<lparr>moves := moves mp', numOfMoves := numOfMoves mp',
                      badCaptures := badCaptures mp',
                      numOfBadCaptures := numOfBadCaptures mp'\<rparr>
          \<and> length (moves mp') = length (moves mp)
          \<and> length (badCaptures mp') = length (badCaptures mp)
          \<and> numOfMoves mp' \<le> numOfMoves mp
          \<and> mset (take (numOfMoves mp') (moves mp'))
              = mset (take i (moves mp)) + image_mset sg (filter_mset good (mset (unscored i mp)))
          \<and> numOfBadCaptures mp'
              = numOfBadCaptures mp + size (filter_mset bad (mset (unscored i mp)))
          \<and> take (numOfBadCaptures mp) (badCaptures mp')
              = take (numOfBadCaptures mp) (badCaptures mp)
          \<and> mset (drop (numOfBadCaptures mp) (take (numOfBadCaptures mp') (badCaptures mp')))
              = image_mset sb (filter_mset bad (mset (unscored i mp)))"
proof (induction "numOfMoves mp - i" arbitrary: i mp)
  case 0
  then have eq: "i = numOfMoves mp" by simp
  then have run: "score_captures_loop x i mp = Inr mp"
    by (subst score_captures_loop.simps) simp
  from eq have "unscored i mp = []" by (simp add: unscored_def)
  with run eq show ?case by simp
next
  case (Suc k)
  let ?ms = "moves mp" and ?n = "numOfMoves mp" and ?bc = "badCaptures mp"
    and ?nb = "numOfBadCaptures mp"
  let ?e = "?ms ! i"
  let ?T = "take (?n - Suc i) (drop (Suc i) ?ms)"
  from Suc.hyps(2) have lt: "i < ?n" by simp
  note len = Suc.prems(3)
  from lt len have il: "i < length ?ms" by simp
  have "drop i ?ms = ?e # drop (Suc i) ?ms"
    using il by (simp add: Cons_nth_drop_Suc)
  moreover from lt have "?n - i = Suc (?n - Suc i)" by simp
  ultimately have U: "unscored i mp = ?e # ?T"
    by (simp add: unscored_def)
  from Suc.hyps(2) have k1: "k = ?n - Suc i" by simp
  show ?case
  proof (cases "see p (move ?e) \<ge> 0")
    case True
    let ?mp1 = "mp\<lparr>moves := ?ms[i := sg ?e]\<rparr>"
    have step: "score_captures_loop x i mp = score_captures_loop x (i + 1) ?mp1"
      using lt len True Suc.prems(1)
      by (subst score_captures_loop.simps) (simp add: Let_def sg_def)
    have U1: "unscored (Suc i) ?mp1 = ?T"
      by (simp add: unscored_def)
    have tk: "take (Suc i) (?ms[i := sg ?e]) = take i ?ms @ [sg ?e]"
      using il by (simp add: take_Suc_conv_app_nth)
    have gU: "filter_mset good (mset (unscored i mp))
              = add_mset ?e (filter_mset good (mset ?T))"
      and bU: "filter_mset bad (mset (unscored i mp)) = filter_mset bad (mset ?T)"
      using True by (simp_all add: U good_def bad_def)
    from k1 have k: "k = numOfMoves ?mp1 - Suc i" by simp
    have pre: "pos ?mp1 = p" "Suc i \<le> numOfMoves ?mp1"
      "numOfMoves ?mp1 \<le> length (moves ?mp1)"
      "numOfBadCaptures ?mp1 + size (filter_mset bad (mset (unscored (Suc i) ?mp1))) \<le> 63"
      "numOfBadCaptures ?mp1 + size (filter_mset bad (mset (unscored (Suc i) ?mp1)))
          \<le> length (badCaptures ?mp1)"
      using Suc.prems lt by (simp_all add: U1 bU)
    from Suc.hyps(1) [OF k pre] obtain mp' where
      r: "score_captures_loop x (Suc i) ?mp1 = Inr mp'"
        "mp' = ?mp1\<lparr>moves := moves mp', numOfMoves := numOfMoves mp',
                      badCaptures := badCaptures mp',
                      numOfBadCaptures := numOfBadCaptures mp'\<rparr>"
        "length (moves mp') = length (moves ?mp1)"
        "length (badCaptures mp') = length (badCaptures ?mp1)"
        "numOfMoves mp' \<le> numOfMoves ?mp1"
        "mset (take (numOfMoves mp') (moves mp'))
              = mset (take (Suc i) (moves ?mp1))
                + image_mset sg (filter_mset good (mset (unscored (Suc i) ?mp1)))"
        "numOfBadCaptures mp'
              = numOfBadCaptures ?mp1 + size (filter_mset bad (mset (unscored (Suc i) ?mp1)))"
        "take (numOfBadCaptures ?mp1) (badCaptures mp')
              = take (numOfBadCaptures ?mp1) (badCaptures ?mp1)"
        "mset (drop (numOfBadCaptures ?mp1) (take (numOfBadCaptures mp') (badCaptures mp')))
              = image_mset sb (filter_mset bad (mset (unscored (Suc i) ?mp1)))"
      by blast
    have fr: "mp' = mp\<lparr>moves := moves mp', numOfMoves := numOfMoves mp',
                      badCaptures := badCaptures mp',
                      numOfBadCaptures := numOfBadCaptures mp'\<rparr>"
      by (subst r(2)) simp
    have m: "mset (take (numOfMoves mp') (moves mp'))
              = mset (take i ?ms) + image_mset sg (filter_mset good (mset (unscored i mp)))"
      by (simp add: r(6) tk U1 gU)
    from step r(1) have run: "score_captures_loop x i mp = Inr mp'" by simp
    from run fr r(3,4,5,7,8,9) m show ?thesis
      by (intro exI [of _ mp']) (simp add: U1 bU)
  next
    case False
    let ?ms1 = "?ms[i := sb ?e]"
    let ?bc1 = "?bc[?nb := sb ?e]"
    let ?ms2 = "?ms1[i := ?ms1 ! (?n - 1)]"
    define mp3 where "mp3 = mp\<lparr>moves := ?ms2, badCaptures := ?bc1,
                   numOfBadCaptures := ?nb + 1, numOfMoves := ?n - 1\<rparr>"
    have f3: "moves mp3 = ?ms2" "badCaptures mp3 = ?bc1" "numOfBadCaptures mp3 = Suc ?nb"
      "numOfMoves mp3 = ?n - 1" "pos mp3 = p"
      by (simp_all add: mp3_def Suc.prems(1))
    have gU: "filter_mset good (mset (unscored i mp)) = filter_mset good (mset ?T)"
      and bU: "filter_mset bad (mset (unscored i mp))
               = add_mset ?e (filter_mset bad (mset ?T))"
      using False by (simp_all add: U good_def bad_def)
    from Suc.prems(4,5) have nb63: "?nb < 63" and nbl: "?nb < length ?bc"
      by (simp_all add: bU)
    have at_i: "?ms1 ! i = sb ?e" using il by simp
    have step: "score_captures_loop x i mp = score_captures_loop x i mp3"
      using lt len False Suc.prems(1) nb63 nbl il
      by (subst score_captures_loop.simps) (simp add: Let_def sb_def mp3_def)
    have U3: "mset (unscored i mp3) = mset ?T"
      using bad_compaction [OF lt len, of "sb ?e"] by (simp add: unscored_def f3)
    have tk: "take i (moves mp3) = take i ?ms"
      by (simp add: f3)
    from k1 lt have k: "k = numOfMoves mp3 - i" by (simp add: f3)
    have pre: "pos mp3 = p" "i \<le> numOfMoves mp3"
      "numOfMoves mp3 \<le> length (moves mp3)"
      "numOfBadCaptures mp3 + size (filter_mset bad (mset (unscored i mp3))) \<le> 63"
      "numOfBadCaptures mp3 + size (filter_mset bad (mset (unscored i mp3)))
          \<le> length (badCaptures mp3)"
      using Suc.prems lt by (simp_all add: U3 bU f3)
    from Suc.hyps(1) [OF k pre] obtain mp' where
      r: "score_captures_loop x i mp3 = Inr mp'"
        "mp' = mp3\<lparr>moves := moves mp', numOfMoves := numOfMoves mp',
                      badCaptures := badCaptures mp',
                      numOfBadCaptures := numOfBadCaptures mp'\<rparr>"
        "length (moves mp') = length (moves mp3)"
        "length (badCaptures mp') = length (badCaptures mp3)"
        "numOfMoves mp' \<le> numOfMoves mp3"
        "mset (take (numOfMoves mp') (moves mp'))
              = mset (take i (moves mp3))
                + image_mset sg (filter_mset good (mset (unscored i mp3)))"
        "numOfBadCaptures mp'
              = numOfBadCaptures mp3 + size (filter_mset bad (mset (unscored i mp3)))"
        "take (numOfBadCaptures mp3) (badCaptures mp')
              = take (numOfBadCaptures mp3) (badCaptures mp3)"
        "mset (drop (numOfBadCaptures mp3) (take (numOfBadCaptures mp') (badCaptures mp')))
              = image_mset sb (filter_mset bad (mset (unscored i mp3)))"
      by blast
    have fr: "mp' = mp\<lparr>moves := moves mp', numOfMoves := numOfMoves mp',
                      badCaptures := badCaptures mp',
                      numOfBadCaptures := numOfBadCaptures mp'\<rparr>"
      by (subst r(2)) (simp add: mp3_def)
    have m: "mset (take (numOfMoves mp') (moves mp'))
              = mset (take i ?ms) + image_mset sg (filter_mset good (mset (unscored i mp)))"
      by (simp add: r(6) U3 gU tk)
    have nb': "numOfBadCaptures mp' = ?nb + size (filter_mset bad (mset (unscored i mp)))"
      by (simp add: r(7) U3 bU f3)
    have tkS: "take (Suc ?nb) (badCaptures mp') = take (Suc ?nb) ?bc1"
      using r(8) by (simp add: f3)
    have "take ?nb (take (Suc ?nb) (badCaptures mp')) = take ?nb (take (Suc ?nb) ?bc1)"
      by (simp only: tkS)
    then have tk_nb: "take ?nb (badCaptures mp') = take ?nb ?bc"
      by simp
    have "take (Suc ?nb) (badCaptures mp') ! ?nb = take (Suc ?nb) ?bc1 ! ?nb"
      by (simp only: tkS)
    then have at_nb: "badCaptures mp' ! ?nb = sb ?e"
      using nbl by simp
    have lenbc: "numOfBadCaptures mp' \<le> length (badCaptures mp')"
      using Suc.prems(5) by (simp add: nb' r(4) f3)
    have ltnb: "?nb < numOfBadCaptures mp'"
      by (simp add: nb' bU)
    let ?tk = "take (numOfBadCaptures mp') (badCaptures mp')"
    have "drop ?nb ?tk = ?tk ! ?nb # drop (Suc ?nb) ?tk"
      by (rule Cons_nth_drop_Suc [symmetric]) (use lenbc ltnb in simp)
    moreover have "?tk ! ?nb = sb ?e"
      using ltnb at_nb by simp
    ultimately have "mset (drop ?nb ?tk) = add_mset (sb ?e) (mset (drop (Suc ?nb) ?tk))"
      by simp
    also have "mset (drop (Suc ?nb) ?tk) = image_mset sb (filter_mset bad (mset ?T))"
      using r(9) by (simp add: U3 f3)
    finally have bm: "mset (drop ?nb ?tk) = image_mset sb (filter_mset bad (mset (unscored i mp)))"
      by (simp add: bU)
    from step r(1) have run: "score_captures_loop x i mp = Inr mp'" by simp
    from r(5) have nle: "numOfMoves mp' \<le> ?n" by (simp add: f3)
    from r(3,4) have lens: "length (moves mp') = length ?ms"
      "length (badCaptures mp') = length ?bc" by (simp_all add: f3)
    from run fr lens nle m nb' tk_nb bm show ?thesis
      by (intro exI [of _ mp']) simp
  qed
qed

lemma drain_cong: "f s = f s' \<Longrightarrow> drain f n s = drain f n s'"
  by (cases n) simp_all

lemma get_next_move_cong:
  "pick_move_from_list g s = pick_move_from_list g s'
   \<Longrightarrow> get_next_move x g s = get_next_move x g s'"
  by (simp add: get_next_move.simps [of x g s] get_next_move.simps [of x g s'])

lemma get_next_move_yield:
  assumes "pick_move_from_list g s = Some (Inr (m, s'))" "m \<noteq> MOVE_NONE" "move_is_ok x m"
  shows "get_next_move x g s = Some (Inr (m, s'))"
  using assms by (simp add: get_next_move.simps [of x g s])

lemma get_next_move_advance:
  assumes "pick_move_from_list g s = Some (Inr (MOVE_NONE, s'))"
    and "phase_at g (phaseIndex s' + 1) = Inr ph"
    and "next_phase x ph (s'\<lparr>phaseIndex := phaseIndex s' + 1\<rparr>) = Break s3"
  shows "get_next_move x g s = get_next_move x g s3"
  using assms by (simp add: get_next_move.simps [of x g s] Let_def)

lemma get_next_move_stop:
  assumes "pick_move_from_list g s = Some (Inr (MOVE_NONE, s'))"
    and "phase_at g (phaseIndex s' + 1) = Inr ph"
    and "next_phase x ph (s'\<lparr>phaseIndex := phaseIndex s' + 1\<rparr>) = Return r"
  shows "get_next_move x g s = Some r"
  using assms by (simp add: get_next_move.simps [of x g s] Let_def)

lemma pick_loop_length:
  assumes "pick_loop sel accept mp = Some r"
  shows "\<forall>m mp'. r = Inr (m, mp') \<longrightarrow> length (moves mp') = length (moves mp)"
  using assms
proof (induct sel accept mp r rule: pick_loop.raw_induct [rotated 1, consumes 1])
  case (1 pick_loop sel accept mp r)
  show ?case
  proof (intro allI impI)
    fix m mp'
    assume r: "r = Inr (m, mp')"
    show "length (moves mp') = length (moves mp)"
    proof (cases "movesPicked mp < numOfMoves mp \<and> \<not> length (moves mp) < numOfMoves mp")
      case False
      with "1.hyps"(2) r show ?thesis
        by (auto split: if_splits)
    next
      case True
      show ?thesis
      proof (cases "sel mp = - 1")
        case True
        with \<open>movesPicked mp < numOfMoves mp \<and> \<not> length (moves mp) < numOfMoves mp\<close> "1.hyps"(2)
        have "pick_loop sel accept mp = Some r"
          by (simp add: Let_def)
        from "1.hyps"(1) [OF this] r show ?thesis
          by simp
      next
        case False
        let ?mp1 = "mp\<lparr>moves := (moves mp)[nat (sel mp) := moves mp ! movesPicked mp],
                        movesPicked := movesPicked mp + 1\<rparr>"
        from False True "1.hyps"(2) r
        consider "mp' = ?mp1" | "pick_loop sel accept ?mp1 = Some r"
          by (auto simp: Let_def split: if_splits)
        then show ?thesis
        proof cases
          case 1
          then show ?thesis by simp
        next
          case 2
          from "1.hyps"(1) [OF this] r
          have "length (moves mp') = length (moves ?mp1)"
            by simp
          then show ?thesis by simp
        qed
      qed
    qed
  qed
qed

lemma remaining_empty:
  assumes "picker_ok s" "remaining s = []"
  shows "\<not> movesPicked s < numOfMoves s"
proof
  assume lt: "movesPicked s < numOfMoves s"
  from assms(1) have "numOfMoves s \<le> length (moves s)" by (simp add: picker_ok_def)
  with lt have "length (remaining s) = numOfMoves s - movesPicked s"
    by (simp add: remaining_def)
  with lt assms(2) show False by simp
qed

lemma pick_loop_done:
  "\<not> movesPicked s < numOfMoves s \<Longrightarrow> pick_loop sel accept s = Some (Inr (MOVE_NONE, s))"
  by (subst pick_loop.simps) simp

lemma drain_pick_loop_then:
  assumes sel: "sel_ok sel"
    and f: "\<And>s. I s \<Longrightarrow> pick_move_from_list g s = pick_loop sel accept s"
    and keep: "\<And>s s'. I s \<Longrightarrow> s' = s\<lparr>moves := moves s', movesPicked := movesPicked s'\<rparr>
                 \<Longrightarrow> length (moves s') = length (moves s) \<Longrightarrow> I s'"
    and cont: "\<And>s. I s \<Longrightarrow> \<not> movesPicked s < numOfMoves s
                 \<Longrightarrow> \<exists>zs. drain (get_next_move x g) (Suc n) s = Some zs \<and> Q zs"
  shows "I mp \<Longrightarrow> picker_ok mp
    \<Longrightarrow> \<forall>e \<in> set (remaining mp). accept (move e) \<longrightarrow> move e \<noteq> MOVE_NONE \<and> move_is_ok x (move e)
    \<Longrightarrow> \<exists>ys zs. drain (get_next_move x g)
                   (size (filter_mset accept (image_mset move (mset (remaining mp)))) + Suc n) mp
              = Some (ys @ zs)
          \<and> mset ys = filter_mset accept (image_mset move (mset (remaining mp)))
          \<and> Q zs
          \<and> (sel_best sel \<longrightarrow> ys \<noteq> [] \<longrightarrow>
               (\<exists>e \<in> set (remaining mp). move e = hd ys
                  \<and> (\<forall>e' \<in> set (remaining mp). accept (move e') \<longrightarrow> score e' \<le> score e)))"
proof (induction "size (filter_mset accept (image_mset move (mset (remaining mp))))"
         arbitrary: mp)
  case 0
  from pick_loop_total [OF sel "0.prems"(2), of accept] obtain m mp' where
    run: "pick_loop sel accept mp = Some (Inr (m, mp'))"
    and ok': "picker_ok mp'"
    and alt: "(accept m
           \<and> filter_mset accept (image_mset move (mset (remaining mp)))
             = add_mset m (filter_mset accept (image_mset move (mset (remaining mp')))))
          \<or> (filter_mset accept (image_mset move (mset (remaining mp))) = {#}
              \<and> m = MOVE_NONE \<and> remaining mp' = [])"
    by blast
  from "0.hyps" have empty: "filter_mset accept (image_mset move (mset (remaining mp))) = {#}"
    by simp
  with alt have m: "m = MOVE_NONE" and r': "remaining mp' = []" by auto
  from pick_loop_frame [OF run]
  have fr: "mp' = mp\<lparr>moves := moves mp', movesPicked := movesPicked mp'\<rparr>" by simp
  from pick_loop_length [OF run] have len: "length (moves mp') = length (moves mp)" by simp
  from keep [OF "0.prems"(1) fr len] have I': "I mp'" .
  from remaining_empty [OF ok' r'] have fin: "\<not> movesPicked mp' < numOfMoves mp'" .
  have "pick_move_from_list g mp = pick_move_from_list g mp'"
    by (simp only: f [OF "0.prems"(1)] f [OF I'] run m pick_loop_done [OF fin])
  then have "get_next_move x g mp = get_next_move x g mp'"
    by (rule get_next_move_cong)
  then have "drain (get_next_move x g) (Suc n) mp = drain (get_next_move x g) (Suc n) mp'"
    by (rule drain_cong)
  moreover from cont [OF I' fin] obtain zs where
    "drain (get_next_move x g) (Suc n) mp' = Some zs" "Q zs" by blast
  ultimately have "drain (get_next_move x g) (0 + Suc n) mp = Some ([] @ zs)" "Q zs"
    by simp_all
  then show ?case
    unfolding empty by (intro exI [of _ "[]"] exI [of _ zs]) simp
next
  case (Suc k)
  let ?A = "\<lambda>s. filter_mset accept (image_mset move (mset (remaining s)))"
  from pick_loop_total [OF sel Suc.prems(2), of accept] obtain m mp' where
    run: "pick_loop sel accept mp = Some (Inr (m, mp'))"
    and ok': "picker_ok mp'"
    and sub: "mset (remaining mp') \<subseteq># mset (remaining mp)"
    and alt: "(accept m
           \<and> ?A mp = add_mset m (?A mp')
           \<and> (sel_best sel \<longrightarrow>
                (\<exists>e \<in> set (remaining mp). move e = m
                   \<and> (\<forall>e' \<in> set (remaining mp). accept (move e') \<longrightarrow> score e' \<le> score e))))
          \<or> (?A mp = {#} \<and> m = MOVE_NONE \<and> remaining mp' = [])"
    by blast
  have "?A mp \<noteq> {#}"
  proof
    assume "?A mp = {#}"
    then have "size (?A mp) = 0" by (simp only: size_empty)
    with Suc.hyps(2) show False by simp
  qed
  with alt have acc: "accept m" and A: "?A mp = add_mset m (?A mp')"
    and best: "sel_best sel \<longrightarrow>
                (\<exists>e \<in> set (remaining mp). move e = m
                   \<and> (\<forall>e' \<in> set (remaining mp). accept (move e') \<longrightarrow> score e' \<le> score e))"
    by auto
  from A have "m \<in># ?A mp" by simp
  then obtain e where "e \<in> set (remaining mp)" "move e = m" by auto
  with acc Suc.prems(3) have nn: "m \<noteq> MOVE_NONE" and okm: "move_is_ok x m" by auto
  from A Suc.hyps(2) have k: "k = size (?A mp')" by simp
  from pick_loop_frame [OF run]
  have fr: "mp' = mp\<lparr>moves := moves mp', movesPicked := movesPicked mp'\<rparr>" by simp
  from pick_loop_length [OF run] have len: "length (moves mp') = length (moves mp)" by simp
  from keep [OF Suc.prems(1) fr len] have I': "I mp'" .
  from sub have "set (remaining mp') \<subseteq> set (remaining mp)"
    by (metis set_mset_mono set_mset_mset)
  with Suc.prems(3)
  have nn': "\<forall>e \<in> set (remaining mp'). accept (move e)
               \<longrightarrow> move e \<noteq> MOVE_NONE \<and> move_is_ok x (move e)"
    by auto
  from Suc.hyps(1) [OF k I' ok' nn'] obtain ys zs where
    d: "drain (get_next_move x g) (size (?A mp') + Suc n) mp' = Some (ys @ zs)"
    and ms: "mset ys = ?A mp'" and q: "Q zs"
    by blast
  from A have sz: "size (?A mp) + Suc n = Suc (size (?A mp') + Suc n)" by simp
  have "pick_move_from_list g mp = Some (Inr (m, mp'))"
    by (simp only: f [OF Suc.prems(1)] run)
  from get_next_move_yield [OF this nn okm]
  have "drain (get_next_move x g) (size (?A mp) + Suc n) mp = Some ((m # ys) @ zs)"
    using nn d by (simp only: sz drain.simps) simp
  moreover have "mset (m # ys) = ?A mp"
    using ms A by simp
  ultimately show ?case
    using best q by (intro exI [of _ "m # ys"] exI [of _ zs]) simp
qed

lemma drain_bad_then:
  assumes f: "\<And>s. I s \<Longrightarrow> pick_move_from_list g s = Some (pick_bad_captures accept s)"
    and keep: "\<And>s k. I s \<Longrightarrow> I (s\<lparr>badCapturesPicked := k\<rparr>)"
    and cont: "\<And>s. I s \<Longrightarrow> \<not> badCapturesPicked s < numOfBadCaptures s
                 \<Longrightarrow> \<exists>zs. drain (get_next_move x g) (Suc n) s = Some zs \<and> Q zs"
  shows "I mp \<Longrightarrow> numOfBadCaptures mp \<le> length (badCaptures mp)
    \<Longrightarrow> \<forall>e \<in> set (drop (badCapturesPicked mp) (take (numOfBadCaptures mp) (badCaptures mp))).
          accept (move e) \<longrightarrow> move e \<noteq> MOVE_NONE \<and> move_is_ok x (move e)
    \<Longrightarrow> \<exists>zs. drain (get_next_move x g)
                (length (filter accept (map move
                   (drop (badCapturesPicked mp) (take (numOfBadCaptures mp) (badCaptures mp)))))
                 + Suc n) mp
              = Some (filter accept (map move
                   (drop (badCapturesPicked mp) (take (numOfBadCaptures mp) (badCaptures mp))))
                      @ zs)
          \<and> Q zs"
proof (induction "numOfBadCaptures mp - badCapturesPicked mp" arbitrary: mp)
  case 0
  then have fin: "\<not> badCapturesPicked mp < numOfBadCaptures mp" by simp
  with "0.prems"(2)
  have W: "drop (badCapturesPicked mp) (take (numOfBadCaptures mp) (badCaptures mp)) = []"
    by simp
  from cont [OF "0.prems"(1) fin] show ?case
    by (simp add: W)
next
  case (Suc k)
  let ?bc = "badCaptures mp" and ?j = "badCapturesPicked mp" and ?nb = "numOfBadCaptures mp"
  let ?mp1 = "mp\<lparr>badCapturesPicked := Suc ?j\<rparr>"
  let ?m = "move (?bc ! ?j)"
  let ?W1 = "drop (Suc ?j) (take ?nb ?bc)"
  from Suc.hyps(2) have lt: "?j < ?nb" by simp
  with Suc.prems(2) have inb: "?j < length ?bc" by simp
  have "drop ?j (take ?nb ?bc) = take ?nb ?bc ! ?j # ?W1"
    by (rule Cons_nth_drop_Suc [symmetric]) (use lt Suc.prems(2) in simp)
  moreover have "take ?nb ?bc ! ?j = ?bc ! ?j" using lt by simp
  ultimately have W: "drop ?j (take ?nb ?bc) = ?bc ! ?j # ?W1" by simp
  have I1: "I ?mp1" by (rule keep [OF Suc.prems(1)])
  from Suc.hyps(2) have k: "k = numOfBadCaptures ?mp1 - badCapturesPicked ?mp1" by simp
  have len1: "numOfBadCaptures ?mp1 \<le> length (badCaptures ?mp1)"
    using Suc.prems(2) by simp
  have ok1: "\<forall>e \<in> set (drop (badCapturesPicked ?mp1)
                         (take (numOfBadCaptures ?mp1) (badCaptures ?mp1))).
          accept (move e) \<longrightarrow> move e \<noteq> MOVE_NONE \<and> move_is_ok x (move e)"
    using Suc.prems(3) by (simp add: W)
  from Suc.hyps(1) [OF k I1 len1 ok1] obtain zs where
    d: "drain (get_next_move x g) (length (filter accept (map move ?W1)) + Suc n) ?mp1
        = Some (filter accept (map move ?W1) @ zs)"
    and q: "Q zs"
    by auto
  note eq = pick_bad_captures.simps [of accept mp]
  show ?case
  proof (cases "accept ?m")
    case True
    with Suc.prems(3) have nn: "?m \<noteq> MOVE_NONE" and okm: "move_is_ok x ?m"
      by (simp_all add: W)
    from True lt inb eq have "pick_bad_captures accept mp = Inr (?m, ?mp1)"
      by (simp add: Let_def)
    with f [OF Suc.prems(1)] have "pick_move_from_list g mp = Some (Inr (?m, ?mp1))"
      by simp
    from get_next_move_yield [OF this nn okm]
    have "drain (get_next_move x g) (Suc (length (filter accept (map move ?W1)) + Suc n)) mp
          = Some ((?m # filter accept (map move ?W1)) @ zs)"
      using nn d by (simp only: drain.simps) simp
    with True q show ?thesis
      by (intro exI [of _ zs]) (simp add: W)
  next
    case False
    with lt inb eq have "pick_bad_captures accept mp = pick_bad_captures accept ?mp1"
      by (simp add: Let_def)
    with f [OF Suc.prems(1)] f [OF I1]
    have "pick_move_from_list g mp = pick_move_from_list g ?mp1" by simp
    then have "get_next_move x g mp = get_next_move x g ?mp1"
      by (rule get_next_move_cong)
    then have "drain (get_next_move x g) (length (filter accept (map move ?W1)) + Suc n) mp
               = drain (get_next_move x g) (length (filter accept (map move ?W1)) + Suc n) ?mp1"
      by (rule drain_cong)
    with d False q show ?thesis
      by (intro exI [of _ zs]) (simp add: W)
  qed
qed

lemma bad_phase_run:
  assumes row: "row_is g (phaseIndex mp) [PH_BAD_CAPTURES, PH_STOP]"
    and chk: "\<not> is_check (pos mp)"
    and len: "numOfBadCaptures mp \<le> length (badCaptures mp)"
    and ok: "\<forall>e \<in> set (take (numOfBadCaptures mp) (badCaptures mp)).
               move e \<noteq> MOVE_NONE \<and> move_is_ok x (move e)"
  shows "\<exists>mp3. next_phase x PH_BAD_CAPTURES mp = Break mp3
    \<and> drain (get_next_move x g)
        (Suc (length (filter (accepted mp)
                (map move (take (numOfBadCaptures mp) (badCaptures mp)))))) mp3
      = Some (filter (accepted mp) (map move (take (numOfBadCaptures mp) (badCaptures mp))))"
proof -
  let ?mp3 = "mp\<lparr>badCapturesPicked := 0\<rparr>"
  let ?B = "filter (accepted mp) (map move (take (numOfBadCaptures mp) (badCaptures mp)))"
  from row have ph: "phase_at g (phaseIndex mp) = Inr PH_BAD_CAPTURES"
    "phase_at g (phaseIndex mp + 1) = Inr PH_STOP" by simp_all
  define I where "I = (\<lambda>s :: MovePicker. \<exists>k. s = mp\<lparr>badCapturesPicked := k\<rparr>)"
  have f: "pick_move_from_list g s = Some (pick_bad_captures (accepted mp) s)" if "I s" for s
  proof -
    from that obtain k where s: "s = mp\<lparr>badCapturesPicked := k\<rparr>" by (auto simp: I_def)
    have "(\<lambda>m. m \<noteq> ttMove s \<and> m \<noteq> mateKiller s \<and> pl_move_is_legal (pos s) m (pinned s))
          = accepted mp"
      by (rule ext) (simp add: s accepted_def)
    moreover have "phase_at g (phaseIndex s) = Inr PH_BAD_CAPTURES" "\<not> is_check (pos s)"
      using ph chk by (simp_all add: s)
    ultimately show ?thesis
      by (simp add: pick_move_from_list_def)
  qed
  have keep: "I (s\<lparr>badCapturesPicked := k\<rparr>)" if "I s" for s k
    using that by (auto simp: I_def)
  have cont: "\<exists>zs. drain (get_next_move x g) (Suc 0) s = Some zs \<and> zs = []"
    if "I s" and fin: "\<not> badCapturesPicked s < numOfBadCaptures s" for s
  proof -
    from that obtain k where s: "s = mp\<lparr>badCapturesPicked := k\<rparr>" by (auto simp: I_def)
    from fin have "pick_bad_captures (accepted mp) s = Inr (MOVE_NONE, s)"
      by (simp add: pick_bad_captures.simps [of "accepted mp" s])
    with f [OF \<open>I s\<close>] have p: "pick_move_from_list g s = Some (Inr (MOVE_NONE, s))" by simp
    have "phase_at g (phaseIndex s + 1) = Inr PH_STOP" using ph by (simp add: s)
    from get_next_move_stop [OF p this, of x] obtain s' where
      "get_next_move x g s = Some (Inr (MOVE_NONE, s'))"
      by simp
    then show ?thesis by simp
  qed
  have I3: "I ?mp3" by (auto simp: I_def)
  have len3: "numOfBadCaptures ?mp3 \<le> length (badCaptures ?mp3)" using len by simp
  have ok3: "\<forall>e \<in> set (drop (badCapturesPicked ?mp3)
                         (take (numOfBadCaptures ?mp3) (badCaptures ?mp3))).
          accepted mp (move e) \<longrightarrow> move e \<noteq> MOVE_NONE \<and> move_is_ok x (move e)"
    using ok by simp
  from drain_bad_then [of I g "accepted mp" x 0 "\<lambda>zs. zs = []" ?mp3,
      OF f keep cont I3 len3 ok3]
  have "drain (get_next_move x g) (Suc (length ?B)) ?mp3 = Some ?B"
    by simp
  then show ?thesis by simp
qed

lemma score_noncaptures_each:
  "score_noncaptures x mp = score_each (noncapture_score x mp) mp"
  by (simp add: score_noncaptures_def noncapture_score_def [abs_def])

lemma noncapture_score_frame:
  "killer1 s = killer1 mp \<Longrightarrow> killer2 s = killer2 mp \<Longrightarrow> pos s = pos mp
   \<Longrightarrow> noncapture_score x s = noncapture_score x mp"
  by (rule ext) (simp add: noncapture_score_def)

lemma accepted_frame:
  "ttMove s = ttMove mp \<Longrightarrow> mateKiller s = mateKiller mp \<Longrightarrow> pos s = pos mp
   \<Longrightarrow> pinned s = pinned mp \<Longrightarrow> accepted s = accepted mp"
  by (rule ext) (simp add: accepted_def)

lemma noncaptures_phase_run:
  assumes row: "row_is g (phaseIndex mp) [PH_NONCAPTURES, PH_BAD_CAPTURES, PH_STOP]"
    and chk: "\<not> is_check (pos mp)"
    and fit: "length (generate_noncaptures x (pos mp)) \<le> length (moves mp)"
    and okq: "\<forall>m \<in> set (generate_noncaptures x (pos mp)).
                m \<noteq> MOVE_NONE \<and> move_is_ok x m \<and> noncapture_score x mp m > - 10000000"
    and len: "numOfBadCaptures mp \<le> length (badCaptures mp)"
    and okb: "\<forall>e \<in> set (take (numOfBadCaptures mp) (badCaptures mp)).
               move e \<noteq> MOVE_NONE \<and> move_is_ok x (move e)"
  shows "\<exists>mp3 ysN. next_phase x PH_NONCAPTURES mp = Break mp3
    \<and> drain (get_next_move x g)
        (length (filter (accepted mp) (generate_noncaptures x (pos mp)))
         + Suc (length (filter (accepted mp)
                  (map move (take (numOfBadCaptures mp) (badCaptures mp)))))) mp3
      = Some (ysN @ filter (accepted mp) (map move (take (numOfBadCaptures mp) (badCaptures mp))))
    \<and> mset ysN = mset (filter (accepted mp) (generate_noncaptures x (pos mp)))"
proof -
  let ?quiets = "generate_noncaptures x (pos mp)"
  let ?B = "filter (accepted mp) (map move (take (numOfBadCaptures mp) (badCaptures mp)))"
  let ?sel = "\<lambda>s. if pvNode s \<or> movesPicked s < 12 then find_best_index s
                   else int (movesPicked s)"
  let ?F = "get_next_move x g"
  from row have ph: "phase_at g (phaseIndex mp) = Inr PH_NONCAPTURES"
    and row': "row_is g (phaseIndex mp + 1) [PH_BAD_CAPTURES, PH_STOP]"
    by simp_all
  define mp3 where
    "mp3 = (score_each (noncapture_score x mp) (generate ?quiets mp))\<lparr>movesPicked := 0\<rparr>"
  note sb = scored_bucket [OF fit, of "noncapture_score x mp", folded mp3_def]
  have "noncapture_score x (generate ?quiets mp) = noncapture_score x mp"
    by (rule noncapture_score_frame) (simp_all add: generate_def)
  then have np: "next_phase x PH_NONCAPTURES mp = Break mp3"
    by (simp add: mp3_def score_noncaptures_each)
  have fr: "pos mp3 = pos mp" "pinned mp3 = pinned mp" "phaseIndex mp3 = phaseIndex mp"
    "ttMove mp3 = ttMove mp" "mateKiller mp3 = mateKiller mp"
    "badCaptures mp3 = badCaptures mp" "numOfBadCaptures mp3 = numOfBadCaptures mp"
    by (simp_all add: mp3_def generate_def score_each_def)
  have ok: "picker_ok mp3"
    using okq fit by (auto simp: picker_ok_def sb)
  define I where "I = (\<lambda>s :: MovePicker. \<exists>ms k. s = mp3\<lparr>moves := ms, movesPicked := k\<rparr>)"
  have f: "pick_move_from_list g s = pick_loop ?sel (accepted mp) s" if "I s" for s
  proof -
    from that obtain ms k where s: "s = mp3\<lparr>moves := ms, movesPicked := k\<rparr>"
      by (auto simp: I_def)
    have "(\<lambda>m. m \<noteq> ttMove s \<and> m \<noteq> mateKiller s \<and> pl_move_is_legal (pos s) m (pinned s))
          = accepted mp"
      by (rule ext) (simp add: s fr accepted_def)
    moreover have "phase_at g (phaseIndex s) = Inr PH_NONCAPTURES" "\<not> is_check (pos s)"
      using ph chk by (simp_all add: s fr)
    ultimately show ?thesis
      by (simp add: pick_move_from_list_def)
  qed
  have keep: "I s'" if "I s" "s' = s\<lparr>moves := moves s', movesPicked := movesPicked s'\<rparr>"
    "length (moves s') = length (moves s)" for s s'
  proof -
    from that(1) obtain ms k where s: "s = mp3\<lparr>moves := ms, movesPicked := k\<rparr>"
      by (auto simp: I_def)
    have "s' = mp3\<lparr>moves := moves s', movesPicked := movesPicked s'\<rparr>"
      by (subst that(2)) (simp add: s)
    then show ?thesis unfolding I_def by blast
  qed
  have cont: "\<exists>zs. drain ?F (Suc (length ?B)) s = Some zs \<and> zs = ?B"
    if "I s" and fin: "\<not> movesPicked s < numOfMoves s" for s
  proof -
    from that obtain ms k where s: "s = mp3\<lparr>moves := ms, movesPicked := k\<rparr>"
      by (auto simp: I_def)
    define s2 where "s2 = s\<lparr>phaseIndex := phaseIndex s + 1\<rparr>"
    have f2: "phaseIndex s2 = phaseIndex mp + 1" "pos s2 = pos mp"
      "badCaptures s2 = badCaptures mp" "numOfBadCaptures s2 = numOfBadCaptures mp"
      "ttMove s2 = ttMove mp" "mateKiller s2 = mateKiller mp" "pinned s2 = pinned mp"
      by (simp_all add: s2_def s fr)
    have acc: "accepted s2 = accepted mp"
      by (rule accepted_frame) (simp_all add: f2)
    have p: "pick_move_from_list g s = Some (Inr (MOVE_NONE, s))"
      by (simp only: f [OF \<open>I s\<close>] pick_loop_done [OF fin])
    have "row_is g (phaseIndex s2) [PH_BAD_CAPTURES, PH_STOP]"
      "\<not> is_check (pos s2)" "numOfBadCaptures s2 \<le> length (badCaptures s2)"
      "\<forall>e \<in> set (take (numOfBadCaptures s2) (badCaptures s2)).
               move e \<noteq> MOVE_NONE \<and> move_is_ok x (move e)"
      using row' chk len okb by (simp_all add: f2)
    from bad_phase_run [OF this] obtain s3 where
      nb: "next_phase x PH_BAD_CAPTURES s2 = Break s3"
      and d: "drain ?F (Suc (length ?B)) s3 = Some ?B"
      by (auto simp only: f2 acc)
    have "phase_at g (phaseIndex s + 1) = Inr PH_BAD_CAPTURES"
      using row' by (simp add: s fr)
    from get_next_move_advance [OF p this nb [unfolded s2_def]]
    have "?F s = ?F s3" .
    then have "drain ?F (Suc (length ?B)) s = drain ?F (Suc (length ?B)) s3"
      by (rule drain_cong)
    with d show ?thesis by simp
  qed
  have I3: "I mp3"
    unfolding I_def by (intro exI [of _ "moves mp3"] exI [of _ "movesPicked mp3"]) simp
  have nn: "\<forall>e \<in> set (remaining mp3). accepted mp (move e)
              \<longrightarrow> move e \<noteq> MOVE_NONE \<and> move_is_ok x (move e)"
    using okq by (auto simp: sb)
  have A: "filter_mset (accepted mp) (image_mset move (mset (remaining mp3)))
           = mset (filter (accepted mp) ?quiets)"
    by (simp add: sb(1) comp_def flip: mset_map mset_filter)
  have "\<exists>ys zs. drain ?F
            (size (filter_mset (accepted mp) (image_mset move (mset (remaining mp3))))
             + Suc (length ?B)) mp3 = Some (ys @ zs)
          \<and> mset ys = filter_mset (accepted mp) (image_mset move (mset (remaining mp3)))
          \<and> zs = ?B
          \<and> (sel_best ?sel \<longrightarrow> ys \<noteq> [] \<longrightarrow>
               (\<exists>e \<in> set (remaining mp3). move e = hd ys
                  \<and> (\<forall>e' \<in> set (remaining mp3). accepted mp (move e')
                        \<longrightarrow> score e' \<le> score e)))"
  proof (rule drain_pick_loop_then [of ?sel I g "accepted mp" x "length ?B" "\<lambda>zs. zs = ?B" mp3])
    show "sel_ok ?sel" by (rule noncaptures_rule_ok)
    show "pick_move_from_list g s = pick_loop ?sel (accepted mp) s" if "I s" for s
      using that by (rule f)
    show "I s'" if "I s" "s' = s\<lparr>moves := moves s', movesPicked := movesPicked s'\<rparr>"
      "length (moves s') = length (moves s)" for s s'
      using that by (rule keep)
    show "\<exists>zs. drain ?F (Suc (length ?B)) s = Some zs \<and> zs = ?B"
      if "I s" "\<not> movesPicked s < numOfMoves s" for s
      using that by (rule cont)
    show "I mp3" by (rule I3)
    show "picker_ok mp3" by (rule ok)
    show "\<forall>e \<in> set (remaining mp3). accepted mp (move e)
              \<longrightarrow> move e \<noteq> MOVE_NONE \<and> move_is_ok x (move e)"
      by (rule nn)
  qed
  then obtain ys where
    "drain ?F (size (filter_mset (accepted mp) (image_mset move (mset (remaining mp3))))
               + Suc (length ?B)) mp3 = Some (ys @ ?B)"
    "mset ys = filter_mset (accepted mp) (image_mset move (mset (remaining mp3)))"
    by blast
  then have "drain ?F (length (filter (accepted mp) ?quiets) + Suc (length ?B)) mp3
             = Some (ys @ ?B)"
    "mset ys = mset (filter (accepted mp) ?quiets)"
    by (simp_all only: A size_mset)
  with np show ?thesis by blast
qed

lemma zip_filter_scored:
  fixes old :: "MoveStack list"
  shows "length ms \<le> length old \<Longrightarrow>
   map (\<lambda>e. e\<lparr>score := f (move e)\<rparr>)
     (filter (\<lambda>e. P (move e)) (map (\<lambda>(m, c). c\<lparr>move := m\<rparr>) (zip ms old)))
   = map (\<lambda>m. \<lparr>move = m, score = f m\<rparr>) (filter P ms)"
proof (induction ms arbitrary: old)
  case Nil
  then show ?case by simp
next
  case (Cons m ms)
  then obtain c cs where old: "old = c # cs" by (cases old) auto
  have "c\<lparr>move := m, score := f m\<rparr> = \<lparr>move = m, score = f m\<rparr>"
    by (cases c) simp
  with Cons old show ?case by simp
qed

lemma zip_filter_length:
  fixes old :: "MoveStack list"
  shows "length ms \<le> length old \<Longrightarrow>
   length (filter (\<lambda>e. P (move e)) (map (\<lambda>(m, c). c\<lparr>move := m\<rparr>) (zip ms old)))
   = length (filter P ms)"
  using arg_cong [OF zip_filter_scored [of ms old "\<lambda>m. 0" P], of length] by simp

lemma good_captures_entry:
  fixes x :: Ext and mp :: MovePicker
  defines "p \<equiv> pos mp"
  defines "caps \<equiv> generate_captures x (pos mp)"
  assumes fit: "length caps \<le> length (moves mp)"
    and nb0: "numOfBadCaptures mp = 0"
    and b63: "length (filter (\<lambda>m. see p m < 0) caps) \<le> 63"
    and bfit: "length (filter (\<lambda>m. see p m < 0) caps) \<le> length (badCaptures mp)"
  shows "\<exists>mp1. next_phase x PH_GOOD_CAPTURES mp = Break mp1
      \<and> mp1 = mp\<lparr>moves := moves mp1, numOfMoves := numOfMoves mp1,
                  badCaptures := badCaptures mp1, numOfBadCaptures := numOfBadCaptures mp1,
                  movesPicked := 0\<rparr>
      \<and> length (moves mp1) = length (moves mp)
      \<and> length (badCaptures mp1) = length (badCaptures mp)
      \<and> numOfMoves mp1 \<le> length (moves mp1)
      \<and> mset (remaining mp1)
          = mset (map (\<lambda>m. \<lparr>move = m, score = mvv_lva x p m\<rparr>) (filter (\<lambda>m. see p m \<ge> 0) caps))
      \<and> numOfBadCaptures mp1 = length (filter (\<lambda>m. see p m < 0) caps)
      \<and> mset (take (numOfBadCaptures mp1) (badCaptures mp1))
          = mset (map (\<lambda>m. \<lparr>move = m, score = see p m\<rparr>) (filter (\<lambda>m. see p m < 0) caps))"
proof -
  define mp0 where "mp0 = generate caps mp"
  define L where "L = map (\<lambda>(m, c). c\<lparr>move := m\<rparr>) (zip caps (moves mp))"
  have f0: "pos mp0 = p" "numOfMoves mp0 = length caps" "numOfBadCaptures mp0 = 0"
    "badCaptures mp0 = badCaptures mp" "moves mp0 = store_moves caps (moves mp)"
    by (simp_all add: mp0_def generate_def p_def nb0)
  have len0: "length (moves mp0) = length (moves mp)"
    using fit by (simp add: f0 store_moves_length)
  have U: "unscored 0 mp0 = L"
    using fit by (simp add: unscored_def f0 store_moves_take L_def)
  have nbad: "size (filter_mset (\<lambda>e. see p (move e) < 0) (mset L))
              = length (filter (\<lambda>m. see p m < 0) caps)"
  proof -
    have "filter_mset (\<lambda>e. see p (move e) < 0) (mset L)
          = mset (filter (\<lambda>e. see p (move e) < 0) L)"
      by (rule mset_filter [symmetric])
    then have "size (filter_mset (\<lambda>e. see p (move e) < 0) (mset L))
               = length (filter (\<lambda>e. see p (move e) < 0) L)"
      by (simp only: size_mset)
    with zip_filter_length [OF fit, of "\<lambda>m. see p m < 0", folded L_def] show ?thesis
      by (simp only:)
  qed
  have pre: "pos mp0 = p" "0 \<le> numOfMoves mp0" "numOfMoves mp0 \<le> length (moves mp0)"
    "numOfBadCaptures mp0
       + size (filter_mset (\<lambda>e. see p (move e) < 0) (mset (unscored 0 mp0))) \<le> 63"
    "numOfBadCaptures mp0
       + size (filter_mset (\<lambda>e. see p (move e) < 0) (mset (unscored 0 mp0)))
     \<le> length (badCaptures mp0)"
    using fit b63 bfit by (simp_all add: f0(1) len0 U nbad) (simp_all add: f0)
  from score_captures_loop_partition [OF pre, of x] obtain mpS where
    r: "score_captures_loop x 0 mp0 = Inr mpS"
      "mpS = mp0\<lparr>moves := moves mpS, numOfMoves := numOfMoves mpS,
                   badCaptures := badCaptures mpS,
                   numOfBadCaptures := numOfBadCaptures mpS\<rparr>"
      "length (moves mpS) = length (moves mp0)"
      "length (badCaptures mpS) = length (badCaptures mp0)"
      "numOfMoves mpS \<le> numOfMoves mp0"
      "mset (take (numOfMoves mpS) (moves mpS))
          = mset (take 0 (moves mp0))
            + image_mset (\<lambda>e. e\<lparr>score := mvv_lva x p (move e)\<rparr>)
                (filter_mset (\<lambda>e. see p (move e) \<ge> 0) (mset (unscored 0 mp0)))"
      "numOfBadCaptures mpS
          = numOfBadCaptures mp0
            + size (filter_mset (\<lambda>e. see p (move e) < 0) (mset (unscored 0 mp0)))"
      "mset (drop (numOfBadCaptures mp0) (take (numOfBadCaptures mpS) (badCaptures mpS)))
          = image_mset (\<lambda>e. e\<lparr>score := see p (move e)\<rparr>)
              (filter_mset (\<lambda>e. see p (move e) < 0) (mset (unscored 0 mp0)))"
    by blast
  define mp1 where "mp1 = mpS\<lparr>movesPicked := 0\<rparr>"
  have np: "next_phase x PH_GOOD_CAPTURES mp = Break mp1"
    using r(1) by (simp add: score_captures_def mp1_def mp0_def caps_def)
  have fr: "mp1 = mp\<lparr>moves := moves mp1, numOfMoves := numOfMoves mp1,
                  badCaptures := badCaptures mp1, numOfBadCaptures := numOfBadCaptures mp1,
                  movesPicked := 0\<rparr>"
    unfolding mp1_def by (subst r(2)) (simp add: mp0_def generate_def)
  have f1: "moves mp1 = moves mpS" "numOfMoves mp1 = numOfMoves mpS"
    "badCaptures mp1 = badCaptures mpS" "numOfBadCaptures mp1 = numOfBadCaptures mpS"
    "movesPicked mp1 = 0"
    by (simp_all add: mp1_def)
  have good: "mset (remaining mp1)
          = mset (map (\<lambda>m. \<lparr>move = m, score = mvv_lva x p m\<rparr>) (filter (\<lambda>m. see p m \<ge> 0) caps))"
  proof -
    have "mset (remaining mp1) = mset (take (numOfMoves mpS) (moves mpS))"
      by (simp add: remaining_def f1)
    also have "\<dots> = mset (map (\<lambda>e. e\<lparr>score := mvv_lva x p (move e)\<rparr>)
                         (filter (\<lambda>e. see p (move e) \<ge> 0) L))"
      by (simp add: r(6) U)
    also have "\<dots> = mset (map (\<lambda>m. \<lparr>move = m, score = mvv_lva x p m\<rparr>)
                         (filter (\<lambda>m. see p m \<ge> 0) caps))"
      using zip_filter_scored [OF fit, of "mvv_lva x p" "\<lambda>m. see p m \<ge> 0", folded L_def]
      by simp
    finally show ?thesis .
  qed
  have nb: "numOfBadCaptures mp1 = length (filter (\<lambda>m. see p m < 0) caps)"
    by (simp add: f1 r(7) f0 U nbad)
  have bad: "mset (take (numOfBadCaptures mp1) (badCaptures mp1))
          = mset (map (\<lambda>m. \<lparr>move = m, score = see p m\<rparr>) (filter (\<lambda>m. see p m < 0) caps))"
  proof -
    have "mset (take (numOfBadCaptures mp1) (badCaptures mp1))
          = mset (map (\<lambda>e. e\<lparr>score := see p (move e)\<rparr>)
                         (filter (\<lambda>e. see p (move e) < 0) L))"
      using r(8) by (simp add: f1 f0 U)
    also have "\<dots> = mset (map (\<lambda>m. \<lparr>move = m, score = see p m\<rparr>)
                         (filter (\<lambda>m. see p m < 0) caps))"
      using zip_filter_scored [OF fit, of "see p" "\<lambda>m. see p m < 0", folded L_def]
      by simp
    finally show ?thesis .
  qed
  have l1: "length (moves mp1) = length (moves mp)"
    "length (badCaptures mp1) = length (badCaptures mp)"
    by (simp_all add: f1 r(3,4) len0 f0(4))
  have n1: "numOfMoves mp1 \<le> length (moves mp1)"
    using r(5) fit by (simp add: f1 r(3) len0 f0(2))
  from np fr l1 n1 good nb bad show ?thesis by blast
qed

lemma mset_moves_of_scored:
  assumes "mset es = mset (map (\<lambda>m. \<lparr>move = m, score = f m\<rparr>) ms)"
  shows "mset (map move es) = mset ms"
    and "set es = (\<lambda>m. \<lparr>move = m, score = f m\<rparr>) ` set ms"
proof -
  have "mset (map move es) = image_mset move (mset es)" by simp
  also have "\<dots> = image_mset move (mset (map (\<lambda>m. \<lparr>move = m, score = f m\<rparr>) ms))"
    by (simp only: assms)
  also have "\<dots> = mset ms" by (simp add: multiset.map_comp comp_def)
  finally show "mset (map move es) = mset ms" .
  from assms have "set es = set (map (\<lambda>m. \<lparr>move = m, score = f m\<rparr>) ms)"
    by (rule mset_eq_setD)
  then show "set es = (\<lambda>m. \<lparr>move = m, score = f m\<rparr>) ` set ms" by simp
qed

lemma good_phase_run:
  fixes x :: Ext and mp :: MovePicker
  defines "p \<equiv> pos mp"
  defines "caps \<equiv> generate_captures x (pos mp)"
  defines "quiets \<equiv> generate_noncaptures x (pos mp)"
  assumes row: "row_is g (phaseIndex mp)
                  [PH_GOOD_CAPTURES, PH_NONCAPTURES, PH_BAD_CAPTURES, PH_STOP]"
    and chk: "\<not> is_check (pos mp)"
    and fit: "length caps \<le> length (moves mp)"
    and fitq: "length quiets \<le> length (moves mp)"
    and nb0: "numOfBadCaptures mp = 0"
    and b63: "length (filter (\<lambda>m. see p m < 0) caps) \<le> 63"
    and bfit: "length (filter (\<lambda>m. see p m < 0) caps) \<le> length (badCaptures mp)"
    and okc: "\<forall>m \<in> set caps. m \<noteq> MOVE_NONE \<and> move_is_ok x m \<and> mvv_lva x p m > - 10000000"
    and okq: "\<forall>m \<in> set quiets. m \<noteq> MOVE_NONE \<and> move_is_ok x m
                \<and> noncapture_score x mp m > - 10000000"
  shows "\<exists>mp1 ysG ysN ysB. next_phase x PH_GOOD_CAPTURES mp = Break mp1
      \<and> mset (remaining mp1)
          = mset (map (\<lambda>m. \<lparr>move = m, score = mvv_lva x p m\<rparr>) (filter (\<lambda>m. see p m \<ge> 0) caps))
      \<and> numOfBadCaptures mp1 = length (filter (\<lambda>m. see p m < 0) caps)
      \<and> mset (take (numOfBadCaptures mp1) (badCaptures mp1))
          = mset (map (\<lambda>m. \<lparr>move = m, score = see p m\<rparr>) (filter (\<lambda>m. see p m < 0) caps))
      \<and> drain (get_next_move x g) (Suc (length (ysG @ ysN @ ysB))) mp1 = Some (ysG @ ysN @ ysB)
      \<and> mset ysG = mset (filter (accepted mp) (filter (\<lambda>m. see p m \<ge> 0) caps))
      \<and> mset ysN = mset (filter (accepted mp) quiets)
      \<and> mset ysB = mset (filter (accepted mp) (filter (\<lambda>m. see p m < 0) caps))
      \<and> (ysG \<noteq> [] \<longrightarrow>
           (\<forall>m \<in> set caps. see p m \<ge> 0 \<and> accepted mp m
               \<longrightarrow> mvv_lva x p m \<le> mvv_lva x p (hd ysG)))"
proof -
  let ?F = "get_next_move x g"
  define G where "G = filter (\<lambda>m. see p m \<ge> 0) caps"
  define Bd where "Bd = filter (\<lambda>m. see p m < 0) caps"
  from good_captures_entry [of x mp, folded p_def caps_def, OF fit nb0 b63 bfit]
  obtain mp1 where np: "next_phase x PH_GOOD_CAPTURES mp = Break mp1"
    and fr: "mp1 = mp\<lparr>moves := moves mp1, numOfMoves := numOfMoves mp1,
                  badCaptures := badCaptures mp1, numOfBadCaptures := numOfBadCaptures mp1,
                  movesPicked := 0\<rparr>"
    and l1: "length (moves mp1) = length (moves mp)"
      "length (badCaptures mp1) = length (badCaptures mp)"
    and n1: "numOfMoves mp1 \<le> length (moves mp1)"
    and good: "mset (remaining mp1) = mset (map (\<lambda>m. \<lparr>move = m, score = mvv_lva x p m\<rparr>) G)"
    and nb: "numOfBadCaptures mp1 = length Bd"
    and bad: "mset (take (numOfBadCaptures mp1) (badCaptures mp1))
          = mset (map (\<lambda>m. \<lparr>move = m, score = see p m\<rparr>) Bd)"
    unfolding G_def Bd_def by blast
  define B where "B = filter (accepted mp) (map move (take (numOfBadCaptures mp1) (badCaptures mp1)))"
  have f1: "pos mp1 = pos mp" "pinned mp1 = pinned mp" "phaseIndex mp1 = phaseIndex mp"
    "ttMove mp1 = ttMove mp" "mateKiller mp1 = mateKiller mp" "killer1 mp1 = killer1 mp"
    "killer2 mp1 = killer2 mp"
    by (subst fr, simp)+
  note gs = mset_moves_of_scored [OF good]
  note bs = mset_moves_of_scored [OF bad]
  have Gsub: "set G \<subseteq> set caps" and Bsub: "set Bd \<subseteq> set caps"
    by (auto simp: G_def Bd_def)
  have ok1: "picker_ok mp1"
    using n1 okc Gsub by (auto simp: picker_ok_def gs(2))
  have mB: "mset B = mset (filter (accepted mp) Bd)"
  proof -
    have "mset B = filter_mset (accepted mp)
                     (mset (map move (take (numOfBadCaptures mp1) (badCaptures mp1))))"
      unfolding B_def by (rule mset_filter)
    also have "\<dots> = filter_mset (accepted mp) (mset Bd)" by (simp only: bs(1))
    also have "\<dots> = mset (filter (accepted mp) Bd)" by (rule mset_filter [symmetric])
    finally show ?thesis .
  qed
  define I where "I = (\<lambda>s :: MovePicker.
      \<exists>ms k. s = mp1\<lparr>moves := ms, movesPicked := k\<rparr> \<and> length ms = length (moves mp1))"
  have f: "pick_move_from_list g s = pick_loop find_best_index (accepted mp) s" if "I s" for s
  proof -
    from that obtain ms k where s: "s = mp1\<lparr>moves := ms, movesPicked := k\<rparr>"
      by (auto simp: I_def)
    have "(\<lambda>m. m \<noteq> ttMove s \<and> m \<noteq> mateKiller s \<and> pl_move_is_legal (pos s) m (pinned s))
          = accepted mp"
      by (rule ext) (simp add: s f1 accepted_def)
    moreover have "phase_at g (phaseIndex s) = Inr PH_GOOD_CAPTURES" "\<not> is_check (pos s)"
      using row chk by (simp_all add: s f1)
    ultimately show ?thesis
      by (simp add: pick_move_from_list_def)
  qed
  have keep: "I s'" if "I s" "s' = s\<lparr>moves := moves s', movesPicked := movesPicked s'\<rparr>"
    "length (moves s') = length (moves s)" for s s'
  proof -
    from that(1) obtain ms k where s: "s = mp1\<lparr>moves := ms, movesPicked := k\<rparr>"
      and len: "length ms = length (moves mp1)"
      by (auto simp: I_def)
    have "s' = mp1\<lparr>moves := moves s', movesPicked := movesPicked s'\<rparr>"
      by (subst that(2)) (simp add: s)
    moreover have "length (moves s') = length (moves mp1)"
      using that(3) len by (simp add: s)
    ultimately show ?thesis unfolding I_def by blast
  qed
  define Q where "Q = (\<lambda>zs. \<exists>ysN. zs = ysN @ B \<and> mset ysN = mset (filter (accepted mp) quiets))"
  define kN where "kN = length (filter (accepted mp) quiets)"
  have cont: "\<exists>zs. drain ?F (Suc (kN + length B)) s = Some zs \<and> Q zs"
    if "I s" and fin: "\<not> movesPicked s < numOfMoves s" for s
  proof -
    from that obtain ms k where s: "s = mp1\<lparr>moves := ms, movesPicked := k\<rparr>"
      and len: "length ms = length (moves mp1)"
      by (auto simp: I_def)
    define s2 where "s2 = s\<lparr>phaseIndex := phaseIndex s + 1\<rparr>"
    have f2: "phaseIndex s2 = phaseIndex mp + 1" "pos s2 = pos mp"
      "badCaptures s2 = badCaptures mp1" "numOfBadCaptures s2 = numOfBadCaptures mp1"
      "ttMove s2 = ttMove mp" "mateKiller s2 = mateKiller mp" "pinned s2 = pinned mp"
      "killer1 s2 = killer1 mp" "killer2 s2 = killer2 mp" "length (moves s2) = length (moves mp)"
      by (simp_all add: s2_def s f1 len l1)
    have acc: "accepted s2 = accepted mp"
      by (rule accepted_frame) (simp_all add: f2)
    have ns: "noncapture_score x s2 = noncapture_score x mp"
      by (rule noncapture_score_frame) (simp_all add: f2)
    have p: "pick_move_from_list g s = Some (Inr (MOVE_NONE, s))"
      by (simp only: f [OF \<open>I s\<close>] pick_loop_done [OF fin])
    have okb: "\<forall>e \<in> set (take (numOfBadCaptures mp1) (badCaptures mp1)).
               move e \<noteq> MOVE_NONE \<and> move_is_ok x (move e)"
      using okc Bsub by (auto simp: bs(2))
    have "row_is g (phaseIndex s2) [PH_NONCAPTURES, PH_BAD_CAPTURES, PH_STOP]"
      "\<not> is_check (pos s2)"
      "length (generate_noncaptures x (pos s2)) \<le> length (moves s2)"
      "\<forall>m \<in> set (generate_noncaptures x (pos s2)).
                m \<noteq> MOVE_NONE \<and> move_is_ok x m \<and> noncapture_score x s2 m > - 10000000"
      "numOfBadCaptures s2 \<le> length (badCaptures s2)"
      "\<forall>e \<in> set (take (numOfBadCaptures s2) (badCaptures s2)).
               move e \<noteq> MOVE_NONE \<and> move_is_ok x (move e)"
      using row chk fitq okq okb bfit
      by (simp_all add: f2 ns nb l1 quiets_def Bd_def)
    from noncaptures_phase_run [OF this] obtain s3 ysN where
      nn: "next_phase x PH_NONCAPTURES s2 = Break s3"
      and d: "drain ?F (kN + Suc (length B)) s3 = Some (ysN @ B)"
      and mN: "mset ysN = mset (filter (accepted mp) quiets)"
      unfolding f2 acc B_def [symmetric] quiets_def [symmetric] kN_def [symmetric]
      by blast
    have "phase_at g (phaseIndex s + 1) = Inr PH_NONCAPTURES"
      using row by (simp add: s f1)
    from get_next_move_advance [OF p this nn [unfolded s2_def]]
    have "?F s = ?F s3" .
    then have "drain ?F (Suc (kN + length B)) s = drain ?F (Suc (kN + length B)) s3"
      by (rule drain_cong)
    with d mN show ?thesis
      unfolding Q_def by simp
  qed
  have I1: "I mp1"
    unfolding I_def by (intro exI [of _ "moves mp1"] exI [of _ "movesPicked mp1"]) simp
  have nn: "\<forall>e \<in> set (remaining mp1). accepted mp (move e)
              \<longrightarrow> move e \<noteq> MOVE_NONE \<and> move_is_ok x (move e)"
    using okc Gsub by (auto simp: gs(2))
  have A: "filter_mset (accepted mp) (image_mset move (mset (remaining mp1)))
           = mset (filter (accepted mp) G)"
  proof -
    have "image_mset move (mset (remaining mp1)) = mset (map move (remaining mp1))" by simp
    also have "\<dots> = mset G" by (rule gs(1))
    finally show ?thesis by (simp only: mset_filter)
  qed
  have "\<exists>ys zs. drain ?F
            (size (filter_mset (accepted mp) (image_mset move (mset (remaining mp1))))
             + Suc (kN + length B)) mp1 = Some (ys @ zs)
          \<and> mset ys = filter_mset (accepted mp) (image_mset move (mset (remaining mp1)))
          \<and> Q zs
          \<and> (sel_best find_best_index \<longrightarrow> ys \<noteq> [] \<longrightarrow>
               (\<exists>e \<in> set (remaining mp1). move e = hd ys
                  \<and> (\<forall>e' \<in> set (remaining mp1). accepted mp (move e')
                        \<longrightarrow> score e' \<le> score e)))"
  proof (rule drain_pick_loop_then [of find_best_index I g "accepted mp" x "kN + length B" Q mp1])
    show "sel_ok find_best_index" by (rule find_best_index_ok)
    show "pick_move_from_list g s = pick_loop find_best_index (accepted mp) s" if "I s" for s
      using that by (rule f)
    show "I s'" if "I s" "s' = s\<lparr>moves := moves s', movesPicked := movesPicked s'\<rparr>"
      "length (moves s') = length (moves s)" for s s'
      using that by (rule keep)
    show "\<exists>zs. drain ?F (Suc (kN + length B)) s = Some zs \<and> Q zs"
      if "I s" "\<not> movesPicked s < numOfMoves s" for s
      using that by (rule cont)
    show "I mp1" by (rule I1)
    show "picker_ok mp1" by (rule ok1)
    show "\<forall>e \<in> set (remaining mp1). accepted mp (move e)
              \<longrightarrow> move e \<noteq> MOVE_NONE \<and> move_is_ok x (move e)"
      by (rule nn)
  qed
  then obtain ysG ysN where
    d: "drain ?F (size (mset (filter (accepted mp) G)) + Suc (kN + length B)) mp1
        = Some (ysG @ ysN @ B)"
    and mG: "mset ysG = mset (filter (accepted mp) G)"
    and mN: "mset ysN = mset (filter (accepted mp) quiets)"
    and best: "ysG \<noteq> [] \<longrightarrow>
               (\<exists>e \<in> set (remaining mp1). move e = hd ysG
                  \<and> (\<forall>e' \<in> set (remaining mp1). accepted mp (move e')
                        \<longrightarrow> score e' \<le> score e))"
    unfolding A Q_def using find_best_index_best by blast
  from mG have lG: "length ysG = length (filter (accepted mp) G)"
    by (rule mset_eq_length)
  from mN have lN: "length ysN = kN"
    unfolding kN_def by (rule mset_eq_length)
  have fuel: "size (mset (filter (accepted mp) G)) + Suc (kN + length B)
              = Suc (length (ysG @ ysN @ B))"
  proof -
    have "size (mset (filter (accepted mp) G)) = length ysG" by (simp only: size_mset lG)
    then show ?thesis by (simp add: lN)
  qed
  have top: "\<forall>m \<in> set caps. see p m \<ge> 0 \<and> accepted mp m
               \<longrightarrow> mvv_lva x p m \<le> mvv_lva x p (hd ysG)" if "ysG \<noteq> []"
  proof (intro ballI impI)
    fix m assume m: "m \<in> set caps" and a: "see p m \<ge> 0 \<and> accepted mp m"
    from best that obtain e where e: "e \<in> set (remaining mp1)" "move e = hd ysG"
      "\<forall>e' \<in> set (remaining mp1). accepted mp (move e') \<longrightarrow> score e' \<le> score e"
      by blast
    from e(1) obtain m0 where "e = \<lparr>move = m0, score = mvv_lva x p m0\<rparr>"
      by (auto simp: gs(2))
    with e(2) have se: "score e = mvv_lva x p (hd ysG)" by simp
    from m a have "\<lparr>move = m, score = mvv_lva x p m\<rparr> \<in> set (remaining mp1)"
      by (simp add: gs(2) G_def)
    with e(3) a have "mvv_lva x p m \<le> score e" by force
    with se show "mvv_lva x p m \<le> mvv_lva x p (hd ysG)" by simp
  qed
  note d' = d [unfolded fuel]
  from np good nb bad d' mG mN mB top show ?thesis
    unfolding G_def Bd_def by blast
qed

lemma replicate_split: "k \<le> n \<Longrightarrow> replicate n c = replicate k c @ replicate (n - k) c"
  by (simp flip: replicate_add)

lemma replicate_256: "replicate 256 c = [c, c, c] @ replicate 253 c"
  using replicate_split [of 3 256 c] by (simp add: eval_nat_numeral)

lemma captures_bucket_entered: "next_phase example_ext PH_GOOD_CAPTURES (blank_picker\<lparr>phaseIndex := 2, ttMove := 2\<rparr>)
   = Break captures_bucket"
proof -
  have r: "replicate 256 c = [c, c, c] @ replicate 253 c" for c :: MoveStack
    using replicate_split [of 3 256 c] by (simp add: eval_nat_numeral)
  have b: "replicate 64 c = c # replicate 63 c" for c :: MoveStack
    using replicate_split [of 1 64 c] by simp
  show ?thesis
    by (simp add: score_captures_def generate_def store_moves_def blank_picker_def
          example_ext_def example_position_def mvv_lva_def captures_bucket_def
          score_captures_loop.simps r b Let_def)
qed

lemma captures_bucket_first_pick: "pick_move_from_list (init_phase_table fresh_globals) captures_bucket
     = Some (Inr (1, captures_bucket\<lparr>moves := (moves captures_bucket)[1 := \<lparr>move = 1, score = 9\<rparr>],
                                     movesPicked := 2\<rparr>))"
proof -
  let ?acc = "\<lambda>m. m \<noteq> ttMove captures_bucket \<and> m \<noteq> mateKiller captures_bucket
                  \<and> pl_move_is_legal (pos captures_bucket) m (pinned captures_bucket)"
  let ?s1 = "captures_bucket\<lparr>moves := (moves captures_bucket)[1 := \<lparr>move = 1, score = 9\<rparr>],
                             movesPicked := 1\<rparr>"
  let ?s2 = "captures_bucket\<lparr>moves := (moves captures_bucket)[1 := \<lparr>move = 1, score = 9\<rparr>],
                             movesPicked := 2\<rparr>"
  have len: "length (PhaseTable fresh_globals) = 32"
    by (simp add: fresh_globals_def)
  have ph: "phase_at (init_phase_table fresh_globals) 2 = Inr PH_GOOD_CAPTURES"
    by (rule init_phase_table_at [OF len])
  have a: "?acc = (\<lambda>m. m \<noteq> 2 \<and> m \<noteq> 0)"
    by (rule ext) (simp add: captures_bucket_def blank_picker_def example_position_def)
  have u: "[0..<2] = [0, Suc 0]" "[Suc 0..<2] = [Suc 0]" "[1..<2] = [Suc 0]"
    by (simp_all add: upt_conv_Cons)
  have 1: "pick_loop find_best_index (\<lambda>m. m \<noteq> 2 \<and> m \<noteq> 0) captures_bucket
           = pick_loop find_best_index (\<lambda>m. m \<noteq> 2 \<and> m \<noteq> 0) ?s1"
    by (subst pick_loop.simps)
       (simp add: captures_bucket_def blank_picker_def find_best_index_def Let_def u)
  have 2: "pick_loop find_best_index (\<lambda>m. m \<noteq> 2 \<and> m \<noteq> 0) ?s1 = Some (Inr (1, ?s2))"
    by (subst pick_loop.simps)
       (simp add: captures_bucket_def blank_picker_def find_best_index_def Let_def u)
  have "pick_move_from_list (init_phase_table fresh_globals) captures_bucket
        = pick_loop find_best_index ?acc captures_bucket"
    using ph by (simp add: pick_move_from_list_def captures_bucket_def blank_picker_def
                   example_position_def)
  then show ?thesis
    by (simp only: a 1 2)
qed

lemma score_captures_loop_bad_step:
  assumes "i < numOfMoves s" "numOfMoves s \<le> length (moves s)"
    "see (pos s) (move (moves s ! i)) < 0"
    "numOfBadCaptures s < 63" "numOfBadCaptures s < length (badCaptures s)"
  shows "score_captures_loop x i s
         = score_captures_loop x i
             (s\<lparr>moves := (moves s)
                    [i := ((moves s)[i := (moves s ! i)\<lparr>score := see (pos s) (move (moves s ! i))\<rparr>])
                          ! (numOfMoves s - 1)],
                badCaptures := (badCaptures s)
                    [numOfBadCaptures s := (moves s ! i)\<lparr>score := see (pos s) (move (moves s ! i))\<rparr>],
                numOfBadCaptures := numOfBadCaptures s + 1,
                numOfMoves := numOfMoves s - 1\<rparr>)"
  using assms by (subst score_captures_loop.simps) (simp add: Let_def)

text \<open>
  C2, as amended. Let the picker stand on the cell of \<^verbatim>\<open>PH_GOOD_CAPTURES\<close>, followed by
  those of \<^verbatim>\<open>PH_NONCAPTURES\<close>, \<^verbatim>\<open>PH_BAD_CAPTURES\<close> and \<^verbatim>\<open>PH_STOP\<close> (the main-search row),
  the position not in check, no bad capture stored yet, the generated moves fitting the
  arrays, passing \<^verbatim>\<open>move_is_ok\<close> and scored above \<open>-10000000\<close>. Entering the phase leaves
  in the bucket exactly the generated captures with SEE \<open>\<ge> 0\<close>, each scored
  \<^verbatim>\<open>midgame_value_of_piece_on(to) - type_of_piece_on(from)\<close> (\<^verbatim>\<open>QueenValueMidgame\<close> for a
  promotion), and in \<^verbatim>\<open>badCaptures[]\<close> exactly those with SEE \<open>< 0\<close>, each scored by its
  SEE; a losing capture in cell \<open>i\<close> is overwritten by the last cell of the bucket, which
  gets one shorter. The calls that follow yield \<open>ysG\<close>, \<open>ysN\<close>, \<open>ysB\<close> in this order and
  then the sentinel: \<open>ysG\<close> are the captures with SEE \<open>\<ge> 0\<close> that are legal and differ from
  the TT move and the mate killer, \<open>ysN\<close> the non-captures of that kind, \<open>ysB\<close> the captures
  with SEE \<open>< 0\<close> of that kind. So every move of \<open>ysG\<close> has SEE \<open>\<ge> 0\<close>, a capture with SEE
  \<open>< 0\<close> is not in \<open>ysG\<close> and, when legal and neither TT move nor mate killer, is in \<open>ysB\<close>,
  after all of \<open>ysG\<close>; and the first move of \<open>ysG\<close> has a highest score among the captures
  with SEE \<open>\<ge> 0\<close> that are legal and differ from the TT move and the mate killer.
\<close>

theorem captures_by_see:
  fixes x :: Ext and mp s :: MovePicker
  defines "p \<equiv> pos mp"
  defines "caps \<equiv> generate_captures x (pos mp)"
  defines "quiets \<equiv> generate_noncaptures x (pos mp)"
  assumes row: "row_is g (phaseIndex mp)
                  [PH_GOOD_CAPTURES, PH_NONCAPTURES, PH_BAD_CAPTURES, PH_STOP]"
    and chk: "\<not> is_check p"
    and fit: "length caps \<le> length (moves mp)"
    and fitq: "length quiets \<le> length (moves mp)"
    and nb0: "numOfBadCaptures mp = 0"
    and b63: "length (filter (\<lambda>m. see p m < 0) caps) \<le> 63"
    and bfit: "length (filter (\<lambda>m. see p m < 0) caps) \<le> length (badCaptures mp)"
    and okc: "\<forall>m \<in> set caps. m \<noteq> MOVE_NONE \<and> move_is_ok x m \<and> mvv_lva x p m > - 10000000"
    and okq: "\<forall>m \<in> set quiets. m \<noteq> MOVE_NONE \<and> move_is_ok x m
                \<and> noncapture_score x mp m > - 10000000"
  shows "(\<exists>mp1 ysG ysN ysB. next_phase x PH_GOOD_CAPTURES mp = Break mp1
      \<and> mset (remaining mp1)
          = mset (map (\<lambda>m. \<lparr>move = m,
                             score = (if move_promotion x m then QueenValueMidgame x
                                      else midgame_value_of_piece_on p (move_to x m)
                                           - type_of_piece_on p (move_from x m))\<rparr>)
                    (filter (\<lambda>m. see p m \<ge> 0) caps))
      \<and> numOfBadCaptures mp1 = length (filter (\<lambda>m. see p m < 0) caps)
      \<and> mset (take (numOfBadCaptures mp1) (badCaptures mp1))
          = mset (map (\<lambda>m. \<lparr>move = m, score = see p m\<rparr>) (filter (\<lambda>m. see p m < 0) caps))
      \<and> drain (get_next_move x g) (Suc (length (ysG @ ysN @ ysB))) mp1 = Some (ysG @ ysN @ ysB)
      \<and> mset ysG = mset (filter (accepted mp) (filter (\<lambda>m. see p m \<ge> 0) caps))
      \<and> mset ysN = mset (filter (accepted mp) quiets)
      \<and> mset ysB = mset (filter (accepted mp) (filter (\<lambda>m. see p m < 0) caps))
      \<and> (\<forall>m \<in> set ysG. see p m \<ge> 0)
      \<and> (\<forall>m \<in> set caps. see p m < 0 \<longrightarrow> m \<notin> set ysG \<and> (accepted mp m \<longrightarrow> m \<in> set ysB))
      \<and> (ysG \<noteq> [] \<longrightarrow>
           (\<forall>m \<in> set caps. see p m \<ge> 0 \<and> accepted mp m
               \<longrightarrow> mvv_lva x p m \<le> mvv_lva x p (hd ysG))))
    \<and> (i < numOfMoves s \<and> numOfMoves s \<le> length (moves s)
        \<and> see (pos s) (move (moves s ! i)) < 0
        \<and> numOfBadCaptures s < 63 \<and> numOfBadCaptures s < length (badCaptures s) \<longrightarrow>
        score_captures_loop x i s
         = score_captures_loop x i
             (s\<lparr>moves := (moves s)
                    [i := ((moves s)[i := (moves s ! i)\<lparr>score := see (pos s) (move (moves s ! i))\<rparr>])
                          ! (numOfMoves s - 1)],
                badCaptures := (badCaptures s)
                    [numOfBadCaptures s := (moves s ! i)\<lparr>score := see (pos s) (move (moves s ! i))\<rparr>],
                numOfBadCaptures := numOfBadCaptures s + 1,
                numOfMoves := numOfMoves s - 1\<rparr>))"
proof (intro conjI impI)
  from good_phase_run [of g mp x, folded p_def caps_def quiets_def,
      OF row chk fit fitq nb0 b63 bfit okc okq]
  obtain mp1 ysG ysN ysB where r: "next_phase x PH_GOOD_CAPTURES mp = Break mp1"
      "mset (remaining mp1)
          = mset (map (\<lambda>m. \<lparr>move = m, score = mvv_lva x p m\<rparr>) (filter (\<lambda>m. see p m \<ge> 0) caps))"
      "numOfBadCaptures mp1 = length (filter (\<lambda>m. see p m < 0) caps)"
      "mset (take (numOfBadCaptures mp1) (badCaptures mp1))
          = mset (map (\<lambda>m. \<lparr>move = m, score = see p m\<rparr>) (filter (\<lambda>m. see p m < 0) caps))"
      "drain (get_next_move x g) (Suc (length (ysG @ ysN @ ysB))) mp1 = Some (ysG @ ysN @ ysB)"
      "mset ysG = mset (filter (accepted mp) (filter (\<lambda>m. see p m \<ge> 0) caps))"
      "mset ysN = mset (filter (accepted mp) quiets)"
      "mset ysB = mset (filter (accepted mp) (filter (\<lambda>m. see p m < 0) caps))"
      "ysG \<noteq> [] \<longrightarrow>
           (\<forall>m \<in> set caps. see p m \<ge> 0 \<and> accepted mp m
               \<longrightarrow> mvv_lva x p m \<le> mvv_lva x p (hd ysG))"
    by blast
  from r(6) have sG: "set ysG = set (filter (accepted mp) (filter (\<lambda>m. see p m \<ge> 0) caps))"
    by (rule mset_eq_setD)
  from r(8) have sB: "set ysB = set (filter (accepted mp) (filter (\<lambda>m. see p m < 0) caps))"
    by (rule mset_eq_setD)
  have a: "\<forall>m \<in> set ysG. see p m \<ge> 0"
    by (simp add: sG)
  have b: "\<forall>m \<in> set caps. see p m < 0 \<longrightarrow> m \<notin> set ysG \<and> (accepted mp m \<longrightarrow> m \<in> set ysB)"
    by (simp add: sG sB)
  from r a b show "\<exists>mp1 ysG ysN ysB. next_phase x PH_GOOD_CAPTURES mp = Break mp1
      \<and> mset (remaining mp1)
          = mset (map (\<lambda>m. \<lparr>move = m,
                             score = (if move_promotion x m then QueenValueMidgame x
                                      else midgame_value_of_piece_on p (move_to x m)
                                           - type_of_piece_on p (move_from x m))\<rparr>)
                    (filter (\<lambda>m. see p m \<ge> 0) caps))
      \<and> numOfBadCaptures mp1 = length (filter (\<lambda>m. see p m < 0) caps)
      \<and> mset (take (numOfBadCaptures mp1) (badCaptures mp1))
          = mset (map (\<lambda>m. \<lparr>move = m, score = see p m\<rparr>) (filter (\<lambda>m. see p m < 0) caps))
      \<and> drain (get_next_move x g) (Suc (length (ysG @ ysN @ ysB))) mp1 = Some (ysG @ ysN @ ysB)
      \<and> mset ysG = mset (filter (accepted mp) (filter (\<lambda>m. see p m \<ge> 0) caps))
      \<and> mset ysN = mset (filter (accepted mp) quiets)
      \<and> mset ysB = mset (filter (accepted mp) (filter (\<lambda>m. see p m < 0) caps))
      \<and> (\<forall>m \<in> set ysG. see p m \<ge> 0)
      \<and> (\<forall>m \<in> set caps. see p m < 0 \<longrightarrow> m \<notin> set ysG \<and> (accepted mp m \<longrightarrow> m \<in> set ysB))
      \<and> (ysG \<noteq> [] \<longrightarrow>
           (\<forall>m \<in> set caps. see p m \<ge> 0 \<and> accepted mp m
               \<longrightarrow> mvv_lva x p m \<le> mvv_lva x p (hd ysG)))"
    unfolding mvv_lva_def [abs_def] by blast
next
  assume "i < numOfMoves s \<and> numOfMoves s \<le> length (moves s)
        \<and> see (pos s) (move (moves s ! i)) < 0
        \<and> numOfBadCaptures s < 63 \<and> numOfBadCaptures s < length (badCaptures s)"
  then show "score_captures_loop x i s
         = score_captures_loop x i
             (s\<lparr>moves := (moves s)
                    [i := ((moves s)[i := (moves s ! i)\<lparr>score := see (pos s) (move (moves s ! i))\<rparr>])
                          ! (numOfMoves s - 1)],
                badCaptures := (badCaptures s)
                    [numOfBadCaptures s := (moves s ! i)\<lparr>score := see (pos s) (move (moves s ! i))\<rparr>],
                numOfBadCaptures := numOfBadCaptures s + 1,
                numOfMoves := numOfMoves s - 1\<rparr>)"
    by (intro score_captures_loop_bad_step) simp_all
qed

theorem captures_by_see_witness:
  "(let g = init_phase_table fresh_globals;
        mp = blank_picker\<lparr>phaseIndex := 2, ttMove := 2\<rparr>;
        s = generate [1, 2, 3] blank_picker
    in row_is g (phaseIndex mp) [PH_GOOD_CAPTURES, PH_NONCAPTURES, PH_BAD_CAPTURES, PH_STOP]
     \<and> generate_captures example_ext (pos mp) = [1, 2, 3]
     \<and> generate_noncaptures example_ext (pos mp) = [4, 5]
     \<and> (\<exists>mp1 ysG ysN ysB. next_phase example_ext PH_GOOD_CAPTURES mp = Break mp1
           \<and> numOfBadCaptures mp1 = 1
           \<and> drain (get_next_move example_ext g) (Suc (length (ysG @ ysN @ ysB))) mp1
               = Some (ysG @ ysN @ ysB)
           \<and> mset ysG = mset [1] \<and> mset ysN = mset [4, 5] \<and> mset ysB = mset [3])
     \<and> see (pos s) (move (moves s ! 2)) < 0
     \<and> score_captures_loop example_ext 2 s
         = score_captures_loop example_ext 2
             (s\<lparr>moves := (moves s)
                    [2 := ((moves s)[2 := (moves s ! 2)\<lparr>score := see (pos s) (move (moves s ! 2))\<rparr>])
                          ! (numOfMoves s - 1)],
                badCaptures := (badCaptures s)
                    [numOfBadCaptures s := (moves s ! 2)\<lparr>score := see (pos s) (move (moves s ! 2))\<rparr>],
                numOfBadCaptures := numOfBadCaptures s + 1,
                numOfMoves := numOfMoves s - 1\<rparr>))"
proof -
  let ?g = "init_phase_table fresh_globals"
  let ?mp = "blank_picker\<lparr>phaseIndex := 2, ttMove := 2\<rparr>"
  let ?s = "generate [1, 2, 3] blank_picker"
  let ?p = "pos ?mp"
  have len: "length (PhaseTable fresh_globals) = 32"
    by (simp add: fresh_globals_def)
  have row: "row_is ?g (phaseIndex ?mp)
               [PH_GOOD_CAPTURES, PH_NONCAPTURES, PH_BAD_CAPTURES, PH_STOP]"
    by (simp add: init_phase_table_at [OF len])
  have caps: "generate_captures example_ext ?p = [1, 2, 3]"
    and quiets: "generate_noncaptures example_ext ?p = [4, 5]"
    by (simp_all add: example_ext_def)
  have p: "?p = example_position False" by (simp add: blank_picker_def)
  have acc: "accepted ?mp = (\<lambda>m. m \<noteq> 2 \<and> m \<noteq> 0)"
    by (rule ext) (simp add: accepted_def blank_picker_def example_position_def)
  have good: "filter (\<lambda>m. see ?p m \<ge> 0) [1, 2, 3] = [1, 2]"
    and bad: "filter (\<lambda>m. see ?p m < 0) [1, 2, 3] = [3]"
    by (simp_all add: p example_position_def)
  have h: "\<not> is_check ?p" "length (generate_captures example_ext ?p) \<le> length (moves ?mp)"
    "length (generate_noncaptures example_ext ?p) \<le> length (moves ?mp)"
    "numOfBadCaptures ?mp = 0"
    "length (filter (\<lambda>m. see ?p m < 0) (generate_captures example_ext ?p)) \<le> 63"
    "length (filter (\<lambda>m. see ?p m < 0) (generate_captures example_ext ?p))
       \<le> length (badCaptures ?mp)"
    "\<forall>m \<in> set (generate_captures example_ext ?p).
        m \<noteq> MOVE_NONE \<and> move_is_ok example_ext m \<and> mvv_lva example_ext ?p m > - 10000000"
    "\<forall>m \<in> set (generate_noncaptures example_ext ?p).
        m \<noteq> MOVE_NONE \<and> move_is_ok example_ext m
        \<and> noncapture_score example_ext ?mp m > - 10000000"
    unfolding caps quiets bad
    by (simp_all add: blank_picker_def example_position_def example_ext_def MOVE_NONE_def
          mvv_lva_def noncapture_score_def)
  have st: "2 < numOfMoves ?s \<and> numOfMoves ?s \<le> length (moves ?s)
        \<and> see (pos ?s) (move (moves ?s ! 2)) < 0
        \<and> numOfBadCaptures ?s < 63 \<and> numOfBadCaptures ?s < length (badCaptures ?s)"
    by (simp add: generate_def store_moves_def blank_picker_def example_position_def
          replicate_256)
  note inst = captures_by_see [of ?g ?mp example_ext 2 ?s, OF row h]
  from inst [THEN conjunct1] obtain mp1 ysG ysN ysB where
    r: "next_phase example_ext PH_GOOD_CAPTURES ?mp = Break mp1"
      "numOfBadCaptures mp1
         = length (filter (\<lambda>m. see ?p m < 0) (generate_captures example_ext ?p))"
      "drain (get_next_move example_ext ?g) (Suc (length (ysG @ ysN @ ysB))) mp1
         = Some (ysG @ ysN @ ysB)"
      "mset ysG = mset (filter (accepted ?mp)
                          (filter (\<lambda>m. see ?p m \<ge> 0) (generate_captures example_ext ?p)))"
      "mset ysN = mset (filter (accepted ?mp) (generate_noncaptures example_ext ?p))"
      "mset ysB = mset (filter (accepted ?mp)
                          (filter (\<lambda>m. see ?p m < 0) (generate_captures example_ext ?p)))"
    by blast
  have fG: "filter (accepted ?mp)
              (filter (\<lambda>m. see ?p m \<ge> 0) (generate_captures example_ext ?p)) = [1]"
    and fN: "filter (accepted ?mp) (generate_noncaptures example_ext ?p) = [4, 5]"
    and fB: "filter (accepted ?mp)
              (filter (\<lambda>m. see ?p m < 0) (generate_captures example_ext ?p)) = [3]"
    and nB: "length (filter (\<lambda>m. see ?p m < 0) (generate_captures example_ext ?p)) = 1"
    unfolding caps quiets good bad acc by simp_all
  have part1: "\<exists>mp1 ysG ysN ysB. next_phase example_ext PH_GOOD_CAPTURES ?mp = Break mp1
           \<and> numOfBadCaptures mp1 = 1
           \<and> drain (get_next_move example_ext ?g) (Suc (length (ysG @ ysN @ ysB))) mp1
               = Some (ysG @ ysN @ ysB)
           \<and> mset ysG = mset [1] \<and> mset ysN = mset [4, 5] \<and> mset ysB = mset [3]"
    using r(1) r(2) [unfolded nB] r(3) r(4) [unfolded fG] r(5) [unfolded fN] r(6) [unfolded fB]
    by blast
  from inst [THEN conjunct2] st
  have part2: "score_captures_loop example_ext 2 ?s
         = score_captures_loop example_ext 2
             (?s\<lparr>moves := (moves ?s)
                    [2 := ((moves ?s)[2 := (moves ?s ! 2)\<lparr>score := see (pos ?s) (move (moves ?s ! 2))\<rparr>])
                          ! (numOfMoves ?s - 1)],
                badCaptures := (badCaptures ?s)
                    [numOfBadCaptures ?s := (moves ?s ! 2)\<lparr>score := see (pos ?s) (move (moves ?s ! 2))\<rparr>],
                numOfBadCaptures := numOfBadCaptures ?s + 1,
                numOfMoves := numOfMoves ?s - 1\<rparr>)"
    by blast
  from st have neg: "see (pos ?s) (move (moves ?s ! 2)) < 0" by blast
  from row caps quiets part1 neg part2 show ?thesis
    unfolding Let_def by blast
qed

text \<open>
  The claim as it is written fails. With the captures 1, 2 and 3 generated, 3 of them
  losing, and the TT move 2: the bucket holds the captures 1 (score 9) and 2 (score 19),
  both legal, and the first move \<^verbatim>\<open>PH_GOOD_CAPTURES\<close> yields is 1. With the TT move 3, the
  losing capture 3 is yielded in the phase \<^verbatim>\<open>PH_TT_MOVE\<close>.
\<close>

theorem captures_by_see_counterexample:
  "next_phase example_ext PH_GOOD_CAPTURES (blank_picker\<lparr>phaseIndex := 2, ttMove := 2\<rparr>)
     = Break captures_bucket
   \<and> remaining captures_bucket = [\<lparr>move = 1, score = 9\<rparr>, \<lparr>move = 2, score = 19\<rparr>]
   \<and> pl_move_is_legal (pos captures_bucket) 2 (pinned captures_bucket)
   \<and> pick_move_from_list (init_phase_table fresh_globals) captures_bucket
     = Some (Inr (1, captures_bucket\<lparr>moves := (moves captures_bucket)[1 := \<lparr>move = 1, score = 9\<rparr>],
                                     movesPicked := 2\<rparr>))
   \<and> generate_captures example_ext (pos blank_picker) = [1, 2, 3]
   \<and> see (pos blank_picker) 3 = - 100
   \<and> next_phase example_ext PH_TT_MOVE (blank_picker\<lparr>ttMove := 3\<rparr>)
     = Return (Inr (3, blank_picker\<lparr>ttMove := 3\<rparr>))"
proof -
  have "remaining captures_bucket = [\<lparr>move = 1, score = 9\<rparr>, \<lparr>move = 2, score = 19\<rparr>]"
    by (simp add: remaining_def captures_bucket_def blank_picker_def)
  moreover have "pl_move_is_legal (pos captures_bucket) 2 (pinned captures_bucket)"
    by (simp add: captures_bucket_def blank_picker_def example_position_def)
  moreover have "generate_captures example_ext (pos blank_picker) = [1, 2, 3]"
    by (simp add: example_ext_def)
  moreover have "see (pos blank_picker) 3 = - 100"
    by (simp add: blank_picker_def example_position_def)
  moreover have "next_phase example_ext PH_TT_MOVE (blank_picker\<lparr>ttMove := 3\<rparr>)
     = Return (Inr (3, blank_picker\<lparr>ttMove := 3\<rparr>))"
    by (simp add: blank_picker_def example_ext_def MOVE_NONE_def)
  ultimately show ?thesis
    using captures_bucket_entered captures_bucket_first_pick by (simp only: simp_thms)
qed

end
